theory Spec2Isabelle
  imports Main "HOL-Library.AList"
begin

section \<open>Data model of \<^verbatim>\<open>lambda_function.py\<close>\<close>

text \<open>
  The handler works on one DynamoDB table, \<^verbatim>\<open>connections\<close>, keyed by
  \<^verbatim>\<open>connectionId\<close>; every item has the two attributes \<^verbatim>\<open>connectionId\<close> and
  \<^verbatim>\<open>connType\<close>, both strings. The table is an association list: \<^verbatim>\<open>scan\<close> returns the
  items in list order, \<^verbatim>\<open>put_item\<close> and \<^verbatim>\<open>update_item\<close> replace the item of a key where
  it stands or add one at the end (both are upserts in DynamoDB), \<^verbatim>\<open>delete_item\<close> removes
  it. The store is the abstract keyed store: it takes every key, the empty string too,
  which is what \<^verbatim>\<open>scan_conns\<close> reports for a vacant player role and what line 167 or 172
  then uses as a key. The order in which a real scan returns the items is not fixed; the
  statements below that speak of a registry do not depend on it.

  Two things the source takes from outside the repository are parameters of the model:
  \<^item> \<open>to_int\<close>, the builtin \<^verbatim>\<open>int\<close> applied to a move string (\<open>None\<close> is its
    \<^verbatim>\<open>ValueError\<close>), so every theorem below holds for whatever strings \<^verbatim>\<open>int\<close> accepts;
  \<^item> \<open>post_ok\<close>, whether \<^verbatim>\<open>client.post_to_connection\<close> delivers to a connection id or
    raises (boto3 reports a failed delivery, such as a gone connection, as an exception).

  The event is the part of the API Gateway event the handler reads: the route key, the
  connection id and \<^verbatim>\<open>body["message"]\<close> when the body has one. The message is a string
  here; the local variable \<^verbatim>\<open>message\<close> is unbound when the body has none, and reading
  it raises. A body that is not JSON, or a message that is not a JSON string, is outside
  the model.
\<close>

datatype py_error = IndexError | NameError | ValueError | ClientError string

type_synonym conn = "string \<times> string"

type_synonym table = "conn list"

record event =
  routeKey :: string
  connectionId :: string
  message :: "string option"

text \<open>The dictionary \<^verbatim>\<open>data\<close>; \<^verbatim>\<open>newMessage = {}\<close> is \<open>None\<close>.\<close>

record data =
  avail :: "nat list"
  p1Id :: string
  p2Id :: string
  p1Moves :: "string list"
  p2Moves :: "string list"
  newMessage :: "(string \<times> string) option"

record response =
  status :: string
  body :: string

text \<open>
  What one invocation leaves behind: the table, the dictionary \<^verbatim>\<open>data\<close> as it stands when
  the broadcast loop starts (\<open>None\<close> when the loop is not reached), the deliveries made,
  in order, each with the recipient id that line 207 writes into the payload, and the
  returned response or the exception that ended the invocation.
\<close>

record result =
  store :: table
  snapshot :: "data option"
  sent :: "(string \<times> data) list"
  outcome :: "py_error + response"

datatype 'a flow = Return response | Raise py_error | Continue 'a

section \<open>The store and string helpers\<close>

definition put_item :: "string \<Rightarrow> string \<Rightarrow> table \<Rightarrow> table" where
  "put_item k v tbl = AList.update k v tbl"

definition update_item :: "string \<Rightarrow> string \<Rightarrow> table \<Rightarrow> table" where
  "update_item k v tbl = AList.update k v tbl"

definition delete_item :: "string \<Rightarrow> table \<Rightarrow> table" where
  "delete_item k tbl = AList.delete k tbl"

text \<open>\<^verbatim>\<open>s.split(c)\<close> for a one-character separator: never empty, \<^verbatim>\<open>"".split(c) == [""]\<close>.\<close>

fun split_chr :: "char \<Rightarrow> string \<Rightarrow> string list" where
  "split_chr c [] = [[]]"
| "split_chr c (x # xs) =
     (if x = c then [] # split_chr c xs
      else (case split_chr c xs of
              [] \<Rightarrow> [[x]]
            | p # ps \<Rightarrow> (x # p) # ps))"

text \<open>\<^verbatim>\<open>sep.join(xs)\<close>.\<close>

fun join :: "string \<Rightarrow> string list \<Rightarrow> string" where
  "join sep [] = []"
| "join sep [x] = x"
| "join sep (x # y # ys) = x @ sep @ join sep (y # ys)"

text \<open>\<^verbatim>\<open>f"{n}"\<close> for the role numbers 0, 1 and 2 that \<^verbatim>\<open>avail\<close> holds.\<close>

definition str_role :: "nat \<Rightarrow> string" where
  "str_role n = (if n = 0 then ''0'' else if n = 1 then ''1'' else ''2'')"

text \<open>
  Modelled from the spec: \<^verbatim>\<open>config._WINNING_COMBOS\<close> is imported from a module that is not
  among the sources. The specification describes it as the fixed catalogue of 8 winning
  triples (3 rows, 3 columns, 2 diagonals) of the row-major 3x3 board with cells 0..8.
\<close>

definition WINNING_COMBOS :: "int list list" where
  "WINNING_COMBOS =
     [[0, 1, 2], [3, 4, 5], [6, 7, 8],
      [0, 3, 6], [1, 4, 7], [2, 5, 8],
      [0, 4, 8], [2, 4, 6]]"

section \<open>\<^verbatim>\<open>scan_conns\<close> (lines 8-45)\<close>

text \<open>
  The loop of lines 22-35 over the accumulator \<open>(p1_id, p2_id, p1_moves, p2_moves)\<close>.
  \<^verbatim>\<open>conn["connType"][0]\<close> raises \<^verbatim>\<open>IndexError\<close> on an empty string, and so does
  \<^verbatim>\<open>split(";")[1]\<close> when the string has no semicolon. The move list is only overwritten
  when the text after the semicolon is not empty.
\<close>

fun scan_loop ::
  "conn list \<Rightarrow> string \<times> string \<times> string list \<times> string list
     \<Rightarrow> py_error + (string \<times> string \<times> string list \<times> string list)" where
  "scan_loop [] acc = Inr acc"
| "scan_loop ((cid, ct) # conns) (p1_id, p2_id, p1_moves, p2_moves) =
     (case ct of
        [] \<Rightarrow> Inl IndexError
      | ch # _ \<Rightarrow>
          if ch = CHR ''0'' then
            (case split_chr CHR '';'' ct of
               _ # p1_moves_str # _ \<Rightarrow>
                 scan_loop conns
                   (cid, p2_id,
                    if p1_moves_str \<noteq> [] then split_chr CHR '','' p1_moves_str else p1_moves,
                    p2_moves)
             | _ \<Rightarrow> Inl IndexError)
          else if ch = CHR ''1'' then
            (case split_chr CHR '';'' ct of
               _ # p2_moves_str # _ \<Rightarrow>
                 scan_loop conns
                   (p1_id, cid, p1_moves,
                    if p2_moves_str \<noteq> [] then split_chr CHR '','' p2_moves_str else p2_moves)
             | _ \<Rightarrow> Inl IndexError)
          else scan_loop conns (p1_id, p2_id, p1_moves, p2_moves))"

definition scan_conns ::
  "conn list \<Rightarrow> py_error + (nat list \<times> string \<times> string \<times> string list \<times> string list)" where
  "scan_conns conns =
     (case scan_loop conns ('''', '''', [], []) of
        Inl e \<Rightarrow> Inl e
      | Inr (p1_id, p2_id, p1_moves, p2_moves) \<Rightarrow>
          Inr ((if p1_id = [] then [0] else []) @ (if p2_id = [] then [1] else []) @ [2],
               p1_id, p2_id, p1_moves, p2_moves))"

section \<open>\<^verbatim>\<open>lambda_handler\<close> (lines 48-217)\<close>

definition success_response :: response where
  "success_response = \<lparr>status = ''Success'', body = ''Lambda executed successfully.''\<rparr>"

definition ineligible_response :: response where
  "ineligible_response = \<lparr>status = ''Failure'', body = ''User ineligible to make play.''\<rparr>"

definition already_made_response :: response where
  "already_made_response = \<lparr>status = ''Failure'', body = ''Move already made!''\<rparr>"

text \<open>The \<^verbatim>\<open>joinGame\<close> route, lines 96-110. \<^verbatim>\<open>avail\<close> always ends with 2, so
  \<^verbatim>\<open>avail[0]\<close> and \<^verbatim>\<open>avail.pop(0)\<close> never fail.\<close>

definition join_game :: "table \<Rightarrow> string \<Rightarrow> data \<Rightarrow> table \<times> data" where
  "join_game tbl connection_id d =
     (if 0 \<in> set (avail d) \<or> 1 \<in> set (avail d) then
        (let tbl' = update_item connection_id (str_role (hd (avail d)) @ '';'') tbl;
             p_id = hd (avail d);
             d' = (if p_id = 0 then d\<lparr>p1Id := connection_id\<rparr>
                   else d\<lparr>p2Id := connection_id\<rparr>)
         in (tbl', d'\<lparr>avail := tl (avail d)\<rparr>))
      else (tbl, d))"

text \<open>Lines 132-141: the move is appended to the list of each player id the connection
  equals; \<^verbatim>\<open>moves_str\<close> stays unbound (\<open>None\<close>) when it equals neither.\<close>

definition apply_move ::
  "string \<Rightarrow> string \<Rightarrow> string \<Rightarrow> string \<Rightarrow> data \<Rightarrow> data \<times> string option \<times> string list" where
  "apply_move connection_id p1_id p2_id msg d =
     (let (d1, moves_str1, check_arr1) =
            (if connection_id = p1_id then
               (let d1 = d\<lparr>p1Moves := p1Moves d @ [msg]\<rparr>
                in (d1, Some (''0;'' @ join '','' (p1Moves d1)), p1Moves d1))
             else (d, None, []))
      in if connection_id = p2_id then
           (let d2 = d1\<lparr>p2Moves := p2Moves d1 @ [msg]\<rparr>
            in (d2, Some (''1;'' @ join '','' (p2Moves d2)), p2Moves d2))
         else (d1, moves_str1, check_arr1))"

text \<open>Lines 144-159: the decision from the integers of \<^verbatim>\<open>check_arr\<close> and the two move
  lists; \<^verbatim>\<open>""\<close> means that the game goes on.\<close>

definition decide :: "int list \<Rightarrow> data \<Rightarrow> string" where
  "decide check_ints d =
     (if card (set check_ints) \<ge> 3 then
        (if list_ex (\<lambda>combo. set combo \<subseteq> set check_ints) WINNING_COMBOS then ''won''
         else if length (p1Moves d) + length (p2Moves d) = 9 then ''tied''
         else '''')
      else '''')"

text \<open>\<^verbatim>\<open>[int(x) for x in check_arr]\<close>: the first string that \<^verbatim>\<open>int\<close> refuses raises.\<close>

fun ints_of :: "(string \<Rightarrow> int option) \<Rightarrow> string list \<Rightarrow> int list option" where
  "ints_of to_int [] = Some []"
| "ints_of to_int (x # xs) =
     (case to_int x of
        None \<Rightarrow> None
      | Some n \<Rightarrow> (case ints_of to_int xs of None \<Rightarrow> None | Some ns \<Rightarrow> Some (n # ns)))"

text \<open>Lines 161-189: both players become spectators and \<^verbatim>\<open>data\<close> is replaced.\<close>

definition announcement :: "string \<Rightarrow> string \<Rightarrow> string \<Rightarrow> string \<times> string" where
  "announcement winner decision loser =
     (''GAME'', winner @ '' has '' @ decision @ '' against '' @ loser @ ''!'')"

definition reset_game ::
  "table \<Rightarrow> string \<Rightarrow> string \<Rightarrow> string \<Rightarrow> string \<Rightarrow> table \<times> data" where
  "reset_game tbl connection_id p1_id p2_id decision =
     (let winner = connection_id;
          loser = (if p1_id = winner then p2_id else p1_id);
          tbl1 = update_item p1_id ''2'' tbl;
          tbl2 = update_item p2_id ''2'' tbl1
      in (tbl2,
          \<lparr>avail = [0, 1, 2], p1Id = '''', p2Id = '''', p1Moves = [], p2Moves = [],
           newMessage = Some (announcement winner decision loser)\<rparr>))"

text \<open>The \<^verbatim>\<open>makePlay\<close> route, lines 113-197.\<close>

definition make_play ::
  "(string \<Rightarrow> int option) \<Rightarrow> table \<Rightarrow> string \<Rightarrow> string option \<Rightarrow> string \<Rightarrow> string
     \<Rightarrow> data \<Rightarrow> (table \<times> data) flow" where
  "make_play to_int tbl connection_id msg_opt p1_id p2_id d =
     (if connection_id \<noteq> p1_id \<and> connection_id \<noteq> p2_id then Return ineligible_response
      else case msg_opt of
        None \<Rightarrow> Raise NameError
      | Some msg \<Rightarrow>
          if msg \<in> set (p1Moves d) \<or> msg \<in> set (p2Moves d) then Return already_made_response
          else
            (let (d', moves_str, check_arr) = apply_move connection_id p1_id p2_id msg d
             in case ints_of to_int check_arr of
                  None \<Rightarrow> Raise ValueError
                | Some check_ints \<Rightarrow>
                    (let decision = decide check_ints d'
                     in if decision \<noteq> '''' then
                          Continue (reset_game tbl connection_id p1_id p2_id decision)
                        else (case moves_str of
                                None \<Rightarrow> Raise NameError
                              | Some s \<Rightarrow> Continue (update_item connection_id s tbl, d')))))"

text \<open>The broadcast loop, lines 205-210: an exception of \<^verbatim>\<open>post_to_connection\<close> is not
  caught, so it leaves the loop and the handler.\<close>

fun broadcast ::
  "(string \<Rightarrow> bool) \<Rightarrow> data \<Rightarrow> conn list \<Rightarrow> (string \<times> data) list \<times> py_error option" where
  "broadcast post_ok d [] = ([], None)"
| "broadcast post_ok d ((conn_id, ct) # conns) =
     (if post_ok conn_id then
        (case broadcast post_ok d conns of (s, e) \<Rightarrow> ((conn_id, d) # s, e))
      else ([], Some (ClientError conn_id)))"

text \<open>The dictionary \<^verbatim>\<open>data\<close> of lines 86-93, built from the result of the scan.\<close>

definition scanned_data ::
  "nat list \<Rightarrow> string \<Rightarrow> string \<Rightarrow> string list \<Rightarrow> string list \<Rightarrow> data" where
  "scanned_data av p1_id p2_id p1_moves p2_moves =
     \<lparr>avail = av, p1Id = p1_id, p2Id = p2_id, p1Moves = p1_moves, p2Moves = p2_moves,
      newMessage = None\<rparr>"

text \<open>
  The routes of lines 95-202 on the scanned table: what the branch of the route key
  does to the table and to \<^verbatim>\<open>data\<close>, or the response it returns early, or the exception
  it raises. A route key other than the three named ones (such as \<^verbatim>\<open>$disconnect\<close>) changes
  nothing here.
\<close>

definition route ::
  "(string \<Rightarrow> int option) \<Rightarrow> table \<Rightarrow> event \<Rightarrow> string \<Rightarrow> string \<Rightarrow> data
     \<Rightarrow> (table \<times> data) flow" where
  "route to_int tbl0 ev p1_id p2_id d =
     (let route_key = routeKey ev; connection_id = connectionId ev in
      if route_key = ''joinGame'' then Continue (join_game tbl0 connection_id d)
      else if route_key = ''makePlay'' then
        make_play to_int tbl0 connection_id (message ev) p1_id p2_id d
      else if route_key = ''sendMessage'' then
        (case message ev of
           None \<Rightarrow> Raise NameError
         | Some msg \<Rightarrow> Continue (tbl0, d\<lparr>newMessage := Some (connection_id, msg)\<rparr>))
      else Continue (tbl0, d))"

text \<open>
  The tail of the handler, lines 204-217, as a function of what the route did: an early
  return or an exception skips the broadcast; otherwise \<^verbatim>\<open>data\<close> goes to the scanned
  connections and the handler returns the success response unless a delivery raised.
\<close>

definition finish ::
  "(string \<Rightarrow> bool) \<Rightarrow> conn list \<Rightarrow> table \<Rightarrow> (table \<times> data) flow \<Rightarrow> result" where
  "finish post_ok conns tbl0 routed =
     (case routed of
        Return r \<Rightarrow> \<lparr>store = tbl0, snapshot = None, sent = [], outcome = Inr r\<rparr>
      | Raise e \<Rightarrow> \<lparr>store = tbl0, snapshot = None, sent = [], outcome = Inl e\<rparr>
      | Continue (tbl1, d1) \<Rightarrow>
          \<lparr>store = tbl1, snapshot = Some d1, sent = fst (broadcast post_ok d1 conns),
           outcome = (case snd (broadcast post_ok d1 conns) of
                        None \<Rightarrow> Inr success_response
                      | Some e \<Rightarrow> Inl e)\<rparr>)"

text \<open>
  The handler: \<^verbatim>\<open>$connect\<close> stores the connection as a spectator and returns; every other
  route key first deletes the connection when it is \<^verbatim>\<open>$disconnect\<close>, scans the table
  (\<^verbatim>\<open>conns\<close> is this scan for the rest of the invocation), runs the route and broadcasts.
\<close>

definition lambda_handler ::
  "(string \<Rightarrow> int option) \<Rightarrow> (string \<Rightarrow> bool) \<Rightarrow> table \<Rightarrow> event \<Rightarrow> result" where
  "lambda_handler to_int post_ok tbl ev =
     (let route_key = routeKey ev; connection_id = connectionId ev in
      if route_key = ''$connect'' then
        \<lparr>store = put_item connection_id ''2'' tbl, snapshot = None, sent = [],
         outcome = Inr success_response\<rparr>
      else
        (let tbl0 = (if route_key = ''$disconnect'' then delete_item connection_id tbl else tbl);
             conns = tbl0
         in case scan_conns conns of
              Inl e \<Rightarrow> \<lparr>store = tbl0, snapshot = None, sent = [], outcome = Inl e\<rparr>
            | Inr (av, p1_id, p2_id, p1_moves, p2_moves) \<Rightarrow>
                finish post_ok conns tbl0
                  (route to_int tbl0 ev p1_id p2_id
                     (scanned_data av p1_id p2_id p1_moves p2_moves))))"

section \<open>Notions of the statements\<close>

text \<open>The dictionary that lines 179-189 put in place of \<^verbatim>\<open>data\<close>, for a given
  \<^verbatim>\<open>newMessage\<close>.\<close>

definition fresh_data :: "(string \<times> string) \<Rightarrow> data" where
  "fresh_data ann =
     \<lparr>avail = [0, 1, 2], p1Id = '''', p2Id = '''', p1Moves = [], p2Moves = [],
      newMessage = Some ann\<rparr>"

text \<open>
  The value of the local variable \<^verbatim>\<open>decision\<close> at line 161 for a move that passed both
  checks: \<open>None\<close> when \<^verbatim>\<open>int\<close> refused one of the acting player's moves.
\<close>

definition play_decision ::
  "(string \<Rightarrow> int option) \<Rightarrow> string \<Rightarrow> string \<Rightarrow> string \<Rightarrow> string \<Rightarrow> data \<Rightarrow> string option" where
  "play_decision to_int connection_id p1_id p2_id msg d =
     (case apply_move connection_id p1_id p2_id msg d of
        (d', moves_str, check_arr) \<Rightarrow>
          (case ints_of to_int check_arr of
             None \<Rightarrow> None
           | Some check_ints \<Rightarrow> Some (decide check_ints d')))"

text \<open>A sequence of invocations, each on the table the one before left.\<close>

fun run :: "(string \<Rightarrow> int option) \<Rightarrow> (string \<Rightarrow> bool) \<Rightarrow> table \<Rightarrow> event list \<Rightarrow> table" where
  "run to_int post_ok tbl [] = tbl"
| "run to_int post_ok tbl (ev # evs) =
     run to_int post_ok (store (lambda_handler to_int post_ok tbl ev)) evs"

text \<open>
  The tests of lines 24 and 31 on one item: the first character of \<^verbatim>\<open>connType\<close> is
  \<^verbatim>\<open>"0"\<close> (the item holds the role of player one) or \<^verbatim>\<open>"1"\<close> (player two). Every other
  item is a spectator's.
\<close>

definition is_p1 :: "conn \<Rightarrow> bool" where
  "is_p1 c = (case snd c of [] \<Rightarrow> False | ch # _ \<Rightarrow> ch = CHR ''0'')"

definition is_p2 :: "conn \<Rightarrow> bool" where
  "is_p2 c = (case snd c of [] \<Rightarrow> False | ch # _ \<Rightarrow> ch = CHR ''1'')"

text \<open>\<^verbatim>\<open>connType.split(";")[1]\<close> where it exists, and the items on which the loop of
  \<^verbatim>\<open>scan_conns\<close> does not raise.\<close>

definition moves_text :: "string \<Rightarrow> string" where
  "moves_text ct = (case split_chr CHR '';'' ct of _ # s # _ \<Rightarrow> s | _ \<Rightarrow> [])"

definition scannable :: "conn \<Rightarrow> bool" where
  "scannable c =
     (snd c \<noteq> [] \<and> (if is_p1 c \<or> is_p2 c then 2 \<le> length (split_chr CHR '';'' (snd c)) else True))"

text \<open>What the loop leaves in an id variable and in a move-list variable, as folds over
  the items that pass the test \<open>P\<close>.\<close>

fun last_id :: "(conn \<Rightarrow> bool) \<Rightarrow> string \<Rightarrow> conn list \<Rightarrow> string" where
  "last_id P a [] = a"
| "last_id P a (c # cs) = last_id P (if P c then fst c else a) cs"

fun last_moves :: "(conn \<Rightarrow> bool) \<Rightarrow> string list \<Rightarrow> conn list \<Rightarrow> string list" where
  "last_moves P m [] = m"
| "last_moves P m (c # cs) =
     last_moves P
       (if P c \<and> moves_text (snd c) \<noteq> [] then split_chr CHR '','' (moves_text (snd c)) else m) cs"

text \<open>
  The registry as the data model wants it: one item per connection id; at most one item
  with the role of player one and at most one with the role of player two; every item is
  a spectator's \<^verbatim>\<open>"2"\<close> or a player's role digit, a semicolon and the move text; and a
  player's connection id is not empty (the empty string is what \<^verbatim>\<open>scan_conns\<close> reports
  for a vacant role).
\<close>

definition has_role :: "conn \<Rightarrow> bool" where
  "has_role c = (snd c = ''2'' \<or> take 2 (snd c) = ''0;'' \<or> take 2 (snd c) = ''1;'')"

definition player_named :: "conn \<Rightarrow> bool" where
  "player_named c = (if is_p1 c \<or> is_p2 c then fst c \<noteq> [] else True)"

definition registry_inv :: "table \<Rightarrow> bool" where
  "registry_inv tbl =
     (distinct (map fst tbl)
      \<and> length (filter is_p1 tbl) \<le> 1
      \<and> length (filter is_p2 tbl) \<le> 1
      \<and> list_all has_role tbl
      \<and> list_all player_named tbl)"

section \<open>Concrete inputs\<close>

text \<open>
  A \<open>to_int\<close> for the examples: the value of a non-empty string of ASCII digits, which is
  what \<^verbatim>\<open>int\<close> returns for the one-digit strings used below; every other string is
  refused here.
\<close>

fun dec_loop :: "int \<Rightarrow> string \<Rightarrow> int option" where
  "dec_loop acc [] = Some acc"
| "dec_loop acc (c # cs) =
     (if 48 \<le> (of_char c :: nat) \<and> (of_char c :: nat) \<le> 57
      then dec_loop (10 * acc + (int (of_char c) - 48)) cs
      else None)"

definition dec_int :: "string \<Rightarrow> int option" where
  "dec_int s = (if s = [] then None else dec_loop 0 s)"

text \<open>Two transports: one that delivers to every connection, and one that cannot reach A
  (its connection is gone) but reaches everyone else.\<close>

definition all_delivered :: "string \<Rightarrow> bool" where
  "all_delivered conn_id = True"

definition all_but_A :: "string \<Rightarrow> bool" where
  "all_but_A conn_id = (conn_id \<noteq> ''A'')"

text \<open>The events of the five routes.\<close>

definition play :: "string \<Rightarrow> string \<Rightarrow> event" where
  "play cid m = \<lparr>routeKey = ''makePlay'', connectionId = cid, message = Some m\<rparr>"

definition chat :: "string \<Rightarrow> string \<Rightarrow> event" where
  "chat cid m = \<lparr>routeKey = ''sendMessage'', connectionId = cid, message = Some m\<rparr>"

definition connect :: "string \<Rightarrow> event" where
  "connect cid = \<lparr>routeKey = ''$connect'', connectionId = cid, message = None\<rparr>"

definition disconnect :: "string \<Rightarrow> event" where
  "disconnect cid = \<lparr>routeKey = ''$disconnect'', connectionId = cid, message = None\<rparr>"

definition join_request :: "string \<Rightarrow> event" where
  "join_request cid = \<lparr>routeKey = ''joinGame'', connectionId = cid, message = None\<rparr>"

text \<open>A game under way: A is player one with cells 0 and 1, B is player two with cells
  3 and 4, C watches.\<close>

definition game_table :: table where
  "game_table = [(''A'', ''0;0,1''), (''B'', ''1;3,4''), (''C'', ''2'')]"

text \<open>A full board but for cell 8: A is player one with cells 0, 1, 5, 6 and B is player
  two with cells 2, 3, 4, 7; neither holds a winning triple, and cell 8 completes none
  for A.\<close>

definition tie_table :: table where
  "tie_table = [(''A'', ''0;0,1,5,6''), (''B'', ''1;2,3,4,7'')]"

text \<open>Two spectators.\<close>

definition lobby_table :: table where
  "lobby_table = [(''A'', ''2''), (''B'', ''2'')]"

text \<open>A game that player two has left: A is player one with cells 0 and 1, C watches.\<close>

definition half_table :: table where
  "half_table = [(''A'', ''0;0,1''), (''C'', ''2'')]"

text \<open>Both players seated, no move made yet.\<close>

definition seated_table :: table where
  "seated_table = [(''A'', ''0;''), (''B'', ''1;'')]"

text \<open>A short session: A and B connect and join, A asks to join again, C connects and
  asks to join, B leaves.\<close>

definition session :: "event list" where
  "session =
     [connect ''A'', connect ''B'', join_request ''A'', join_request ''B'', join_request ''A'',
      connect ''C'', join_request ''C'', disconnect ''B'']"

section \<open>The decision\<close>

lemma decide_cases:
  "decide ints d = '''' \<or> decide ints d = ''won'' \<or> decide ints d = ''tied''"
  by (simp add: decide_def)

lemma combo_card: "combo \<in> set WINNING_COMBOS \<Longrightarrow> card (set combo) = 3"
  by (auto simp add: WINNING_COMBOS_def)

lemma decide_won:
  "decide ints d = ''won'' \<longleftrightarrow> (\<exists>combo\<in>set WINNING_COMBOS. set combo \<subseteq> set ints)"
proof -
  have "3 \<le> card (set ints)" if "combo \<in> set WINNING_COMBOS" "set combo \<subseteq> set ints" for combo
    using that combo_card [of combo] card_mono [of "set ints" "set combo"] by simp
  then show ?thesis
    by (auto simp add: decide_def list_ex_iff)
qed

lemma decide_gate: "decide ints d \<noteq> '''' \<Longrightarrow> 3 \<le> card (set ints)"
  by (auto simp add: decide_def split: if_splits)

lemma decide_tied:
  "decide ints d = ''tied'' \<longleftrightarrow>
     \<not> (\<exists>combo\<in>set WINNING_COMBOS. set combo \<subseteq> set ints) \<and> 3 \<le> card (set ints)
     \<and> length (p1Moves d) + length (p2Moves d) = 9"
  by (auto simp add: decide_def list_ex_iff)

text \<open>A set of cells of the board that contains no row has at most 6 cells: it misses a
  cell of each of the three rows. So 7 cells of one player always hold a winning triple.\<close>

lemma seven_cells_hold_a_row:
  fixes S :: "int set"
  assumes "S \<subseteq> {0..8}" and "finite S"
    and "\<not> (\<exists>combo\<in>set WINNING_COMBOS. set combo \<subseteq> S)"
  shows "card S \<le> 6"
proof -
  have r1: "\<not> {0, 1, 2} \<subseteq> S" and r2: "\<not> {3, 4, 5} \<subseteq> S" and r3: "\<not> {6, 7, 8} \<subseteq> S"
    using assms(3) by (auto simp add: WINNING_COMBOS_def)
  obtain a where a: "a \<in> {0, 1, 2}" "a \<notin> S" using r1 by blast
  obtain b where b: "b \<in> {3, 4, 5}" "b \<notin> S" using r2 by blast
  obtain c where c: "c \<in> {6, 7, 8}" "c \<notin> S" using r3 by blast
  have sub: "S \<subseteq> {0..8} - {a, b, c}" using assms(1) a(2) b(2) c(2) by auto
  have d: "a \<noteq> b" "a \<noteq> c" "b \<noteq> c" using a(1) b(1) c(1) by auto
  have in9: "{a, b, c} \<subseteq> {0..8}" using a(1) b(1) c(1) by auto
  have "card ({0..8} - {a, b, c}) = card {0..8::int} - card {a, b, c}"
    using in9 by (intro card_Diff_subset) simp_all
  also have "\<dots> = 6" using d by simp
  finally have "card ({0..8} - {a, b, c}) = 6" .
  then show ?thesis
    using card_mono [OF _ sub] by simp
qed

lemma full_board_passes_gate:
  assumes "distinct (ints @ oints)" and "set (ints @ oints) \<subseteq> {0..8}"
    and "length ints + length oints = 9"
    and "\<not> (\<exists>combo\<in>set WINNING_COMBOS. set combo \<subseteq> set oints)"
  shows "3 \<le> card (set ints)"
proof -
  have "card (set oints) \<le> 6"
    using assms(2,4) by (intro seven_cells_hold_a_row) simp_all
  moreover have "card (set oints) = length oints" "card (set ints) = length ints"
    using assms(1) by (simp_all add: distinct_card)
  ultimately show ?thesis using assms(3) by simp
qed

lemma decide_goes_on:
  assumes "\<not> (\<exists>combo\<in>set WINNING_COMBOS. set combo \<subseteq> set ints)"
    and "length (p1Moves d) + length (p2Moves d) \<noteq> 9"
  shows "decide ints d = ''''"
  using assms by (simp add: decide_def list_ex_iff)

lemma ints_of_length: "ints_of to_int xs = Some ns \<Longrightarrow> length ns = length xs"
  by (induction xs arbitrary: ns) (auto split: option.splits)

lemma ints_of_map: "ints_of to_int xs = Some ns \<Longrightarrow> map to_int xs = map Some ns"
  by (induction xs arbitrary: ns) (auto split: option.splits)

lemma ints_of_append:
  "ints_of to_int (xs @ ys) =
     (case ints_of to_int xs of
        None \<Rightarrow> None
      | Some a \<Rightarrow> (case ints_of to_int ys of None \<Rightarrow> None | Some b \<Rightarrow> Some (a @ b)))"
  by (induction xs) (auto split: option.splits)

lemma ints_of_prefix:
  assumes "ints_of to_int (xs @ ys) = Some ints"
  obtains a where "ints_of to_int xs = Some a" and "set a \<subseteq> set ints"
  using assms by (auto simp add: ints_of_append split: option.splits)

section \<open>The handler, route by route\<close>


lemma finish_simps:
  "finish post_ok conns tbl0 (Return r) =
     \<lparr>store = tbl0, snapshot = None, sent = [], outcome = Inr r\<rparr>"
  "finish post_ok conns tbl0 (Raise e) =
     \<lparr>store = tbl0, snapshot = None, sent = [], outcome = Inl e\<rparr>"
  "finish post_ok conns tbl0 (Continue (tbl1, d1)) =
     \<lparr>store = tbl1, snapshot = Some d1, sent = fst (broadcast post_ok d1 conns),
      outcome = (case snd (broadcast post_ok d1 conns) of
                   None \<Rightarrow> Inr success_response
                 | Some e \<Rightarrow> Inl e)\<rparr>"
  by (simp_all add: finish_def)

lemma store_finish:
  "store (finish post_ok conns tbl0 (Return r)) = tbl0"
  "store (finish post_ok conns tbl0 (Raise e)) = tbl0"
  "store (finish post_ok conns tbl0 (Continue (t, d))) = t"
  by (simp_all add: finish_def)


lemma finish_snapshot:
  "snapshot (finish post_ok conns tbl0 routed) = Some d \<Longrightarrow>
   sent (finish post_ok conns tbl0 routed) = fst (broadcast post_ok d conns)
   \<and> outcome (finish post_ok conns tbl0 routed) =
       (case snd (broadcast post_ok d conns) of
          None \<Rightarrow> Inr success_response
        | Some e \<Rightarrow> Inl e)"
  by (cases routed) (auto simp add: finish_def)

lemma broadcast_sent:
  "fst (broadcast post_ok d conns) =
     map (\<lambda>c. (fst c, d)) (takeWhile (\<lambda>c. post_ok (fst c)) conns)"
  by (induction conns) (auto split: prod.splits)

lemma broadcast_error:
  "snd (broadcast post_ok d conns) =
     (case dropWhile (\<lambda>c. post_ok (fst c)) conns of
        [] \<Rightarrow> None
      | c # _ \<Rightarrow> Some (ClientError (fst c)))"
  by (induction conns) (auto split: prod.splits)

lemma finish_outcome:
  "outcome (finish post_ok conns tbl0 (Continue (t, d))) =
     (case dropWhile (\<lambda>c. post_ok (fst c)) conns of
        [] \<Rightarrow> Inr success_response
      | c # _ \<Rightarrow> Inl (ClientError (fst c)))"
  unfolding finish_simps broadcast_error
  by (cases "dropWhile (\<lambda>c. post_ok (fst c)) conns") (simp_all del: dropWhile_eq_Nil_conv)

lemma chat_simps:
  "routeKey (chat cid m) = ''sendMessage''" "connectionId (chat cid m) = cid"
  "message (chat cid m) = Some m"
  by (simp_all add: chat_def)

lemma play_simps:
  "routeKey (play cid m) = ''makePlay''" "connectionId (play cid m) = cid"
  "message (play cid m) = Some m"
  by (simp_all add: play_def)

lemma join_request_simps:
  "routeKey (join_request cid) = ''joinGame''" "connectionId (join_request cid) = cid"
  by (simp_all add: join_request_def)

lemma handler_connect:
  "routeKey ev = ''$connect'' \<Longrightarrow>
   lambda_handler to_int post_ok tbl ev =
     \<lparr>store = put_item (connectionId ev) ''2'' tbl, snapshot = None, sent = [],
      outcome = Inr success_response\<rparr>"
  by (simp add: lambda_handler_def)

lemma handler_routes:
  assumes "routeKey ev \<noteq> ''$connect''"
    and "tbl0 = (if routeKey ev = ''$disconnect'' then delete_item (connectionId ev) tbl else tbl)"
    and "scan_conns tbl0 = Inr (av, p1_id, p2_id, p1_moves, p2_moves)"
  shows "lambda_handler to_int post_ok tbl ev =
         finish post_ok tbl0 tbl0
           (route to_int tbl0 ev p1_id p2_id (scanned_data av p1_id p2_id p1_moves p2_moves))"
proof -
  have "scan_conns (if routeKey ev = ''$disconnect'' then delete_item (connectionId ev) tbl
                    else tbl) = Inr (av, p1_id, p2_id, p1_moves, p2_moves)"
    using assms(2,3) by simp
  then show ?thesis
    unfolding lambda_handler_def Let_def assms(2)
    using assms(1) by simp
qed

lemma handler_scan_error:
  assumes "routeKey ev \<noteq> ''$connect''"
    and "tbl0 = (if routeKey ev = ''$disconnect'' then delete_item (connectionId ev) tbl else tbl)"
    and "scan_conns tbl0 = Inl e"
  shows "lambda_handler to_int post_ok tbl ev =
           \<lparr>store = tbl0, snapshot = None, sent = [], outcome = Inl e\<rparr>"
proof -
  have "scan_conns (if routeKey ev = ''$disconnect'' then delete_item (connectionId ev) tbl
                    else tbl) = Inl e"
    using assms(2,3) by simp
  then show ?thesis
    unfolding lambda_handler_def Let_def assms(2)
    using assms(1) by simp
qed

lemma handler_makePlay:
  assumes "routeKey ev = ''makePlay''"
    and "scan_conns tbl = Inr (av, p1_id, p2_id, p1_moves, p2_moves)"
  shows "lambda_handler to_int post_ok tbl ev =
         finish post_ok tbl tbl
           (make_play to_int tbl (connectionId ev) (message ev) p1_id p2_id
              (scanned_data av p1_id p2_id p1_moves p2_moves))"
  using assms handler_routes [of ev tbl tbl av p1_id p2_id p1_moves p2_moves to_int post_ok]
  by (simp add: route_def)



lemma apply_move_eq:
  "apply_move cid p1 p2 msg d =
     (if cid = p2 then
        (if cid = p1 then d\<lparr>p1Moves := p1Moves d @ [msg], p2Moves := p2Moves d @ [msg]\<rparr>
         else d\<lparr>p2Moves := p2Moves d @ [msg]\<rparr>,
         Some (''1;'' @ join '','' (p2Moves d @ [msg])), p2Moves d @ [msg])
      else if cid = p1 then
        (d\<lparr>p1Moves := p1Moves d @ [msg]\<rparr>,
         Some (''0;'' @ join '','' (p1Moves d @ [msg])), p1Moves d @ [msg])
      else (d, None, []))"
  by (simp add: apply_move_def Let_def)

lemma make_play_accepted:
  assumes "cid = p1 \<or> cid = p2" and "msg \<notin> set (p1Moves d)" and "msg \<notin> set (p2Moves d)"
    and "apply_move cid p1 p2 msg d = (d', ms, arr)"
    and "ints_of to_int arr = Some ints"
  shows "make_play to_int tbl cid (Some msg) p1 p2 d =
           (if decide ints d' \<noteq> '''' then Continue (reset_game tbl cid p1 p2 (decide ints d'))
            else Continue (update_item cid (the ms) tbl, d'))"
proof -
  have "ms \<noteq> None"
    using assms(1,4) by (auto simp add: apply_move_eq split: if_splits)
  then obtain s where s: "ms = Some s" by auto
  show ?thesis
    using assms s by (simp add: make_play_def Let_def)
qed

lemma handler_makePlay_accepted:
  assumes "routeKey ev = ''makePlay''"
    and "scan_conns tbl = Inr (av, p1_id, p2_id, p1_moves, p2_moves)"
    and "connectionId ev = p1_id \<or> connectionId ev = p2_id"
    and "message ev = Some msg" and "msg \<notin> set p1_moves" and "msg \<notin> set p2_moves"
    and "apply_move (connectionId ev) p1_id p2_id msg
           (scanned_data av p1_id p2_id p1_moves p2_moves) = (d', ms, arr)"
    and "ints_of to_int arr = Some ints"
  shows "lambda_handler to_int post_ok tbl ev =
         finish post_ok tbl tbl
           (if decide ints d' \<noteq> ''''
            then Continue (reset_game tbl (connectionId ev) p1_id p2_id (decide ints d'))
            else Continue (update_item (connectionId ev) (the ms) tbl, d'))"
proof -
  have "make_play to_int tbl (connectionId ev) (Some msg) p1_id p2_id
          (scanned_data av p1_id p2_id p1_moves p2_moves) =
        (if decide ints d' \<noteq> ''''
         then Continue (reset_game tbl (connectionId ev) p1_id p2_id (decide ints d'))
         else Continue (update_item (connectionId ev) (the ms) tbl, d'))"
    using assms(3,5,6,7,8) by (intro make_play_accepted) (simp_all add: scanned_data_def)
  then show ?thesis
    using assms(1,2,4) by (simp add: handler_makePlay)
qed

lemma reset_game_eq:
  "reset_game tbl cid p1 p2 dec =
     (update_item p2 ''2'' (update_item p1 ''2'' tbl),
      fresh_data (announcement cid dec (if p1 = cid then p2 else p1)))"
  by (simp add: reset_game_def fresh_data_def Let_def)

lemma play_decision_eq:
  "apply_move cid p1 p2 msg d = (d', ms, arr) \<Longrightarrow>
   play_decision to_int cid p1 p2 msg d = map_option (\<lambda>ints. decide ints d') (ints_of to_int arr)"
  by (simp add: play_decision_def split: option.splits)

lemma handler_makePlay_decided:
  assumes "routeKey ev = ''makePlay''"
    and "scan_conns tbl = Inr (av, p1_id, p2_id, p1_moves, p2_moves)"
    and "connectionId ev = p1_id \<or> connectionId ev = p2_id"
    and "message ev = Some msg" and "msg \<notin> set p1_moves" and "msg \<notin> set p2_moves"
    and "play_decision to_int (connectionId ev) p1_id p2_id msg
           (scanned_data av p1_id p2_id p1_moves p2_moves) = Some dec"
  shows "lambda_handler to_int post_ok tbl ev =
         finish post_ok tbl tbl
           (if dec \<noteq> ''''
            then Continue (update_item p2_id ''2'' (update_item p1_id ''2'' tbl),
                   fresh_data (announcement (connectionId ev) dec
                     (if p1_id = connectionId ev then p2_id else p1_id)))
            else Continue
                   (update_item (connectionId ev)
                      ((if connectionId ev = p2_id then ''1;'' else ''0;'') @
                       join '','' ((if connectionId ev = p2_id then p2_moves else p1_moves) @ [msg]))
                      tbl,
                    (scanned_data av p1_id p2_id p1_moves p2_moves)
                      \<lparr>p1Moves := (if connectionId ev = p1_id then p1_moves @ [msg] else p1_moves),
                       p2Moves := (if connectionId ev = p2_id then p2_moves @ [msg] else p2_moves)\<rparr>))"
proof -
  obtain d' ms arr where am: "apply_move (connectionId ev) p1_id p2_id msg
           (scanned_data av p1_id p2_id p1_moves p2_moves) = (d', ms, arr)"
    by (metis prod_cases3)
  obtain ints where ints: "ints_of to_int arr = Some ints" and dec: "dec = decide ints d'"
    using assms(7) by (auto simp add: play_decision_eq [OF am])
  have ms: "the ms = (if connectionId ev = p2_id then ''1;'' else ''0;'') @
                       join '','' ((if connectionId ev = p2_id then p2_moves else p1_moves) @ [msg])"
    using am assms(3) by (auto simp add: apply_move_eq scanned_data_def split: if_splits)
  have d': "d' = (scanned_data av p1_id p2_id p1_moves p2_moves)
                      \<lparr>p1Moves := (if connectionId ev = p1_id then p1_moves @ [msg] else p1_moves),
                       p2Moves := (if connectionId ev = p2_id then p2_moves @ [msg] else p2_moves)\<rparr>"
    using am assms(3) by (auto simp add: apply_move_eq scanned_data_def split: if_splits)
  show ?thesis
    unfolding handler_makePlay_accepted [OF assms(1-6) am ints] dec [symmetric] ms d' [symmetric]
    by (simp add: reset_game_eq)
qed

lemma play_decision_cases:
  "play_decision to_int cid p1 p2 msg d = Some dec \<Longrightarrow> dec = '''' \<or> dec = ''won'' \<or> dec = ''tied''"
  using decide_cases by (auto simp add: play_decision_def split: prod.splits option.splits)

lemma make_play_cases:
  assumes "make_play to_int tbl cid msg p1 p2 d = Continue (t, d')"
  shows "t = update_item p2 ''2'' (update_item p1 ''2'' tbl)
       \<or> (cid = p2 \<and> (\<exists>s. t = update_item cid (''1;'' @ s) tbl))
       \<or> (cid \<noteq> p2 \<and> cid = p1 \<and> (\<exists>s. t = update_item cid (''0;'' @ s) tbl))"
proof -
  from assms have el: "cid = p1 \<or> cid = p2"
    by (auto simp add: make_play_def split: if_splits)
  from assms obtain m where m: "msg = Some m"
    by (cases msg) (auto simp add: make_play_def split: if_splits)
  from assms have nd: "m \<notin> set (p1Moves d)" "m \<notin> set (p2Moves d)"
    by (auto simp add: make_play_def m split: if_splits)
  obtain d1 ms arr where am: "apply_move cid p1 p2 m d = (d1, ms, arr)"
    by (metis prod_cases3)
  from assms obtain ints where ints: "ints_of to_int arr = Some ints"
    using el nd am by (cases "ints_of to_int arr") (auto simp add: make_play_def m)
  have "Continue (t, d') =
          (if decide ints d1 \<noteq> '''' then Continue (reset_game tbl cid p1 p2 (decide ints d1))
           else Continue (update_item cid (the ms) tbl, d1))"
    using make_play_accepted [OF el nd am ints, of tbl] assms by (simp add: m)
  moreover have "the ms = (if cid = p2 then ''1;'' else ''0;'') @
                   join '','' ((if cid = p2 then p2Moves d else p1Moves d) @ [m])"
    using am el by (auto simp add: apply_move_eq split: if_splits)
  ultimately show ?thesis
    using el by (auto simp add: reset_game_eq split: if_splits)
qed

lemma join_game_eq:
  assumes "av = (if p1_id = [] then [0] else []) @ (if p2_id = [] then [1] else []) @ [2]"
  shows "join_game tbl cid (scanned_data av p1_id p2_id p1_moves p2_moves) =
     (if p1_id = [] then
        (update_item cid ''0;'' tbl,
         (scanned_data av p1_id p2_id p1_moves p2_moves)\<lparr>p1Id := cid, avail := tl av\<rparr>)
      else if p2_id = [] then
        (update_item cid ''1;'' tbl,
         (scanned_data av p1_id p2_id p1_moves p2_moves)\<lparr>p2Id := cid, avail := tl av\<rparr>)
      else (tbl, scanned_data av p1_id p2_id p1_moves p2_moves))"
  by (simp add: assms join_game_def scanned_data_def str_role_def Let_def)

lemma map_of_update_item: "map_of (update_item k v tbl) = (map_of tbl)(k \<mapsto> v)"
  by (simp add: update_item_def update_conv')

lemma update_item_twice: "update_item k v (update_item k w tbl) = update_item k v tbl"
  by (simp add: update_item_def)

section \<open>What \<^verbatim>\<open>scan_conns\<close> returns\<close>

lemma scan_loop_eq:
  "list_all scannable conns \<Longrightarrow>
   scan_loop conns (a, b, c, d) =
     Inr (last_id is_p1 a conns, last_id is_p2 b conns,
          last_moves is_p1 c conns, last_moves is_p2 d conns)"
proof (induction conns arbitrary: a b c d)
  case Nil
  then show ?case by simp
next
  case (Cons x conns)
  obtain cid ct where x: "x = (cid, ct)" by (cases x)
  from Cons.prems have sc: "scannable (cid, ct)" and rest: "list_all scannable conns"
    by (simp_all add: x)
  from sc obtain ch ct' where ct: "ct = ch # ct'"
    by (cases ct) (auto simp add: scannable_def)
  show ?case
  proof (cases "ch = CHR ''0''")
    case True
    then have p: "is_p1 (cid, ct)" "\<not> is_p2 (cid, ct)"
      by (simp_all add: is_p1_def is_p2_def ct)
    with sc obtain u s r where sp: "split_chr CHR '';'' ct = u # s # r"
      by (cases "split_chr CHR '';'' ct"; cases "tl (split_chr CHR '';'' ct)")
         (auto simp add: scannable_def)
    then have mt: "moves_text ct = s" by (simp add: moves_text_def)
    show ?thesis
      using True p sp mt Cons.IH [OF rest] by (simp add: x ct)
  next
    case False
    note n0 = this
    show ?thesis
    proof (cases "ch = CHR ''1''")
      case True
      then have p: "\<not> is_p1 (cid, ct)" "is_p2 (cid, ct)"
        by (simp_all add: is_p1_def is_p2_def ct)
      with sc obtain u s r where sp: "split_chr CHR '';'' ct = u # s # r"
        by (cases "split_chr CHR '';'' ct"; cases "tl (split_chr CHR '';'' ct)")
           (auto simp add: scannable_def)
      then have mt: "moves_text ct = s" by (simp add: moves_text_def)
      show ?thesis
        using True n0 p sp mt Cons.IH [OF rest] by (simp add: x ct)
    next
      case False
      then have p: "\<not> is_p1 (cid, ct)" "\<not> is_p2 (cid, ct)"
        using n0 by (simp_all add: is_p1_def is_p2_def ct)
      show ?thesis
        using False n0 p Cons.IH [OF rest] by (simp add: x ct)
    qed
  qed
qed

lemma scan_loop_scannable:
  "scan_loop conns acc = Inr r \<Longrightarrow> list_all scannable conns"
proof (induction conns arbitrary: acc)
  case Nil
  then show ?case by simp
next
  case (Cons x conns)
  obtain cid ct where x: "x = (cid, ct)" by (cases x)
  obtain a b c d where acc: "acc = (a, b, c, d)" by (cases acc)
  from Cons.prems obtain ch ct' where ct: "ct = ch # ct'"
    by (cases ct) (auto simp add: x acc)
  have "scannable (cid, ct) \<and> (\<exists>acc'. scan_loop conns acc' = Inr r)"
    using Cons.prems
    by (auto simp add: x acc ct scannable_def is_p1_def is_p2_def
        split: if_splits list.splits)
  then show ?case
    using Cons.IH by (auto simp add: x)
qed

lemma scan_conns_eq:
  "list_all scannable tbl \<Longrightarrow>
   scan_conns tbl =
     Inr ((if last_id is_p1 [] tbl = [] then [0] else []) @
          (if last_id is_p2 [] tbl = [] then [1] else []) @ [2],
          last_id is_p1 [] tbl, last_id is_p2 [] tbl,
          last_moves is_p1 [] tbl, last_moves is_p2 [] tbl)"
  by (simp add: scan_conns_def scan_loop_eq)

lemma scan_conns_scannable: "scan_conns tbl = Inr r \<Longrightarrow> list_all scannable tbl"
  using scan_loop_scannable [of tbl "([], [], [], [])"]
  by (auto simp add: scan_conns_def split: sum.splits)

lemma scan_conns_Inr:
  assumes "scan_conns tbl = Inr (av, p1_id, p2_id, p1_moves, p2_moves)"
  shows "av = (if p1_id = [] then [0] else []) @ (if p2_id = [] then [1] else []) @ [2]"
    and "p1_id = last_id is_p1 [] tbl" and "p2_id = last_id is_p2 [] tbl"
    and "p1_moves = last_moves is_p1 [] tbl" and "p2_moves = last_moves is_p2 [] tbl"
  using assms scan_conns_eq [OF scan_conns_scannable [OF assms]] by auto

lemma last_id_filter:
  "last_id P a cs = (if filter P cs = [] then a else fst (last (filter P cs)))"
  by (induction cs arbitrary: a) auto

lemma last_moves_filter: "last_moves P m cs = last_moves P m (filter P cs)"
  by (induction cs arbitrary: m) auto

lemma last_id_cases:
  "last_id P a cs = a \<and> filter P cs = [] \<or> (\<exists>c\<in>set cs. P c \<and> fst c = last_id P a cs)"
proof (cases "filter P cs = []")
  case True
  then show ?thesis by (simp add: last_id_filter)
next
  case False
  then have "last (filter P cs) \<in> set (filter P cs)" by (rule last_in_set)
  then show ?thesis using False by (auto simp add: last_id_filter)
qed

lemma filter_le1:
  assumes "length (filter P cs) \<le> 1" and "c \<in> set cs" and "P c"
  shows "filter P cs = [c]"
proof -
  have "c \<in> set (filter P cs)" using assms(2,3) by simp
  then show ?thesis using assms(1)
    by (cases "filter P cs"; cases "tl (filter P cs)") auto
qed

lemma filter_update_others:
  "distinct (map fst al) \<Longrightarrow> filter (\<lambda>c. P c \<and> fst c \<noteq> k) al = [] \<Longrightarrow>
   filter P (AList.update k v al) = (if P (k, v) then [(k, v)] else [])"
proof (induction al)
  case Nil
  then show ?case by simp
next
  case (Cons x al)
  obtain k' v' where x: "x = (k', v')" by (cases x)
  show ?case
  proof (cases "k' = k")
    case True
    have "filter P al = filter (\<lambda>c. P c \<and> fst c \<noteq> k) al"
      using Cons.prems(1) True by (intro filter_cong) (auto simp add: x)
    then show ?thesis using Cons.prems True by (simp add: x)
  next
    case False
    then show ?thesis using Cons by (auto simp add: x split: if_splits)
  qed
qed

lemma filter_update_not:
  "distinct (map fst al) \<Longrightarrow> \<not> P (k, v) \<Longrightarrow>
   filter P (AList.update k v al) = filter (\<lambda>c. P c \<and> fst c \<noteq> k) al"
proof (induction al)
  case Nil
  then show ?case by simp
next
  case (Cons x al)
  obtain k' v' where x: "x = (k', v')" by (cases x)
  show ?case
  proof (cases "k' = k")
    case True
    have "filter P al = filter (\<lambda>c. P c \<and> fst c \<noteq> k) al"
      using Cons.prems(1) True by (intro filter_cong) (auto simp add: x)
    then show ?thesis using Cons.prems True by (simp add: x)
  next
    case False
    then show ?thesis using Cons by (auto simp add: x)
  qed
qed

lemma filter_delete:
  "filter P (AList.delete k al) = filter (\<lambda>c. P c \<and> fst c \<noteq> k) al"
  by (induction al) (auto simp add: AList.delete_eq)

lemma length_filter_conj: "length (filter (\<lambda>c. P c \<and> Q c) cs) \<le> length (filter P cs)"
  by (induction cs) auto

lemma set_update_subset: "set (AList.update k v al) \<subseteq> insert (k, v) (set al)"
  by (induction al) auto

lemma set_delete_subset: "set (AList.delete k al) \<subseteq> set al"
  by (auto simp add: AList.delete_eq)

lemma handler_joinGame:
  assumes "routeKey ev = ''joinGame''"
    and "scan_conns tbl = Inr (av, p1_id, p2_id, p1_moves, p2_moves)"
  shows "lambda_handler to_int post_ok tbl ev =
         finish post_ok tbl tbl
           (Continue
             (if p1_id = [] then
                (update_item (connectionId ev) ''0;'' tbl,
                 (scanned_data av p1_id p2_id p1_moves p2_moves)
                   \<lparr>p1Id := connectionId ev, avail := tl av\<rparr>)
              else if p2_id = [] then
                (update_item (connectionId ev) ''1;'' tbl,
                 (scanned_data av p1_id p2_id p1_moves p2_moves)
                   \<lparr>p2Id := connectionId ev, avail := tl av\<rparr>)
              else (tbl, scanned_data av p1_id p2_id p1_moves p2_moves)))"
  using assms handler_routes [of ev tbl tbl av p1_id p2_id p1_moves p2_moves to_int post_ok]
    join_game_eq [OF scan_conns_Inr(1) [OF assms(2)], of tbl "connectionId ev" p1_moves p2_moves]
  by (simp add: route_def)

section \<open>Splitting what was joined\<close>

lemma split_chr_nonempty: "split_chr c s \<noteq> []"
  by (induction s) (auto split: list.splits)

lemma split_chr_pieces: "x \<in> set (split_chr c s) \<Longrightarrow> c \<notin> set x \<and> set x \<subseteq> set s"
proof (induction s arbitrary: x)
  case Nil
  then show ?case by simp
next
  case (Cons a s)
  show ?case
  proof (cases "a = c")
    case True
    then show ?thesis using Cons by auto
  next
    case False
    obtain p ps where sp: "split_chr c s = p # ps"
      using split_chr_nonempty [of c s] by (cases "split_chr c s") auto
    then have "x = a # p \<or> x \<in> set ps" using Cons.prems False by simp
    then show ?thesis using Cons.IH [of p] Cons.IH [of x] sp False by auto
  qed
qed

lemma split_chr_none: "c \<notin> set s \<Longrightarrow> split_chr c s = [s]"
  by (induction s) auto

lemma split_chr_append:
  "c \<notin> set x \<Longrightarrow> split_chr c (x @ c # rest) = x # split_chr c rest"
  by (induction x) auto

lemma split_join:
  "xs \<noteq> [] \<Longrightarrow> \<forall>x\<in>set xs. c \<notin> set x \<Longrightarrow> split_chr c (join [c] xs) = xs"
proof (induction "[c]" xs rule: join.induct)
  case 1
  then show ?case by simp
next
  case (2 x)
  then show ?case by (simp add: split_chr_none)
next
  case (3 x y ys)
  then show ?case by (simp add: split_chr_append)
qed

lemma set_join: "set (join sep xs) \<subseteq> set sep \<union> \<Union> (set ` set xs)"
  by (induction sep xs rule: join.induct) auto

lemma join_empty: "join '','' xs = [] \<longleftrightarrow> xs = [] \<or> xs = [[]]"
  by (induction "'',''" xs rule: join.induct) auto

lemma moves_text_role:
  assumes "ch \<noteq> CHR '';''" and "CHR '';'' \<notin> set text"
  shows "moves_text (ch # CHR '';'' # text) = text"
  using assms by (simp add: moves_text_def split_chr_none)

lemma moves_roundtrip:
  assumes "ch \<noteq> CHR '';''" and "xs \<noteq> []" and "xs \<noteq> [[]]"
    and "\<forall>x\<in>set xs. CHR '','' \<notin> set x \<and> CHR '';'' \<notin> set x"
  shows "moves_text (ch # CHR '';'' # join '','' xs) \<noteq> []"
    and "split_chr CHR '','' (moves_text (ch # CHR '';'' # join '','' xs)) = xs"
proof -
  have "CHR '';'' \<notin> set (join '','' xs)"
    using set_join [of "'',''" xs] assms(4) by auto
  then have mt: "moves_text (ch # CHR '';'' # join '','' xs) = join '','' xs"
    using assms(1) by (intro moves_text_role)
  show "moves_text (ch # CHR '';'' # join '','' xs) \<noteq> []"
    using assms(2,3) by (simp add: mt join_empty)
  show "split_chr CHR '','' (moves_text (ch # CHR '';'' # join '','' xs)) = xs"
    unfolding mt using assms(2,4) by (intro split_join) auto
qed

lemma moves_text_no_semicolon: "CHR '';'' \<notin> set (moves_text ct)"
proof (cases "split_chr CHR '';'' ct")
  case Nil
  then show ?thesis by (simp add: moves_text_def)
next
  case (Cons u r)
  show ?thesis
  proof (cases r)
    case Nil
    then show ?thesis using Cons by (simp add: moves_text_def)
  next
    case (Cons s r')
    then have "moves_text ct = s" and "s \<in> set (split_chr CHR '';'' ct)"
      using \<open>split_chr CHR '';'' ct = u # r\<close> by (simp_all add: moves_text_def)
    then show ?thesis using split_chr_pieces [of s "CHR '';''" ct] by simp
  qed
qed

lemma split_moves_pieces:
  assumes "x \<in> set (split_chr CHR '','' (moves_text ct))"
  shows "CHR '','' \<notin> set x \<and> CHR '';'' \<notin> set x"
proof -
  have "CHR '','' \<notin> set x" and "set x \<subseteq> set (moves_text ct)"
    using split_chr_pieces [OF assms] by simp_all
  then show ?thesis using moves_text_no_semicolon [of ct] by blast
qed

lemma last_moves_pieces:
  assumes "\<forall>x\<in>set m. CHR '','' \<notin> set x \<and> CHR '';'' \<notin> set x"
  shows "\<forall>x\<in>set (last_moves P m tbl). CHR '','' \<notin> set x \<and> CHR '';'' \<notin> set x"
  using assms
proof (induction tbl arbitrary: m)
  case Nil
  then show ?case by (simp only: last_moves.simps)
next
  case (Cons c tbl)
  have q: "\<forall>x\<in>set (split_chr CHR '','' (moves_text (snd c))).
             CHR '','' \<notin> set x \<and> CHR '';'' \<notin> set x"
  proof (rule ballI)
    fix x
    assume "x \<in> set (split_chr CHR '','' (moves_text (snd c)))"
    then show "CHR '','' \<notin> set x \<and> CHR '';'' \<notin> set x"
      by (rule split_moves_pieces)
  qed
  show ?case
  proof (cases "P c \<and> moves_text (snd c) \<noteq> []")
    case True
    then have e: "last_moves P m (c # tbl) =
                  last_moves P (split_chr CHR '','' (moves_text (snd c))) tbl"
      by simp
    show ?thesis unfolding e using q by (rule Cons.IH)
  next
    case False
    then have e: "last_moves P m (c # tbl) = last_moves P m tbl"
      by auto
    show ?thesis unfolding e using Cons.prems by (rule Cons.IH)
  qed
qed

lemma scanned_moves_pieces:
  assumes "scan_conns tbl = Inr (av, p1_id, p2_id, p1_moves, p2_moves)"
  shows "\<forall>x\<in>set p1_moves \<union> set p2_moves. CHR '','' \<notin> set x \<and> CHR '';'' \<notin> set x"
proof -
  have e: "\<forall>x\<in>set ([]::string list). CHR '','' \<notin> set x \<and> CHR '';'' \<notin> set x"
    by simp
  have "\<forall>x\<in>set (last_moves is_p1 [] tbl). CHR '','' \<notin> set x \<and> CHR '';'' \<notin> set x"
    using e by (rule last_moves_pieces)
  moreover have "\<forall>x\<in>set (last_moves is_p2 [] tbl). CHR '','' \<notin> set x \<and> CHR '';'' \<notin> set x"
    using e by (rule last_moves_pieces)
  ultimately show ?thesis
    unfolding scan_conns_Inr(4,5) [OF assms] by blast
qed

section \<open>The registry invariant\<close>

lemma is_player_simps:
  "\<not> is_p1 (k, ''2'')" "\<not> is_p2 (k, ''2'')"
  "is_p1 (k, CHR ''0'' # s)" "\<not> is_p2 (k, CHR ''0'' # s)"
  "is_p2 (k, CHR ''1'' # s)" "\<not> is_p1 (k, CHR ''1'' # s)"
  by (simp_all add: is_p1_def is_p2_def)

lemma has_role_simps:
  "has_role (k, ''2'')" "has_role (k, CHR ''0'' # CHR '';'' # s)"
  "has_role (k, CHR ''1'' # CHR '';'' # s)"
  by (simp_all add: has_role_def)

lemma take2_eq: "take 2 s = [a, b] \<Longrightarrow> \<exists>r. s = a # b # r"
  by (cases s; cases "tl s") (auto simp add: numeral_2_eq_2)

lemma split_role_prefix:
  "ch \<noteq> CHR '';'' \<Longrightarrow> split_chr CHR '';'' (ch # CHR '';'' # r) = [ch] # split_chr CHR '';'' r"
  by simp

lemma has_role_scannable:
  assumes "has_role c"
  shows "scannable c"
proof -
  obtain k ct where c: "c = (k, ct)" by (cases c)
  consider "ct = ''2''" | r where "ct = CHR ''0'' # CHR '';'' # r"
    | r where "ct = CHR ''1'' # CHR '';'' # r"
    using assms take2_eq [of ct] by (auto simp add: has_role_def c)
  then show ?thesis
  proof cases
    case 1
    then show ?thesis by (simp add: c scannable_def is_p1_def is_p2_def)
  next
    case 2
    then show ?thesis
      using split_chr_nonempty [of "CHR '';''" r]
      by (cases "split_chr CHR '';'' r") (simp_all add: c scannable_def)
  next
    case 3
    then show ?thesis
      using split_chr_nonempty [of "CHR '';''" r]
      by (cases "split_chr CHR '';'' r") (simp_all add: c scannable_def)
  qed
qed

lemma registry_inv_update:
  assumes "registry_inv tbl" and "has_role (k, v)" and "player_named (k, v)"
    and "is_p1 (k, v) \<Longrightarrow> filter (\<lambda>c. is_p1 c \<and> fst c \<noteq> k) tbl = []"
    and "is_p2 (k, v) \<Longrightarrow> filter (\<lambda>c. is_p2 c \<and> fst c \<noteq> k) tbl = []"
  shows "registry_inv (AList.update k v tbl)"
proof -
  have d: "distinct (map fst tbl)" using assms(1) by (simp add: registry_inv_def)
  have d': "distinct (map fst (AList.update k v tbl))" using d by (rule distinct_update)
  have one: "length (filter P (AList.update k v tbl)) \<le> 1"
    if "length (filter P tbl) \<le> 1" and "P (k, v) \<Longrightarrow> filter (\<lambda>c. P c \<and> fst c \<noteq> k) tbl = []"
    for P
  proof (cases "P (k, v)")
    case True
    then show ?thesis using that(2) d by (simp add: filter_update_others)
  next
    case False
    then show ?thesis
      using that(1) d length_filter_conj [of P "\<lambda>c. fst c \<noteq> k" tbl]
      by (simp add: filter_update_not)
  qed
  have all: "list_all Q (AList.update k v tbl)" if "list_all Q tbl" and "Q (k, v)" for Q
    using that set_update_subset [of k v tbl] by (auto simp add: list_all_iff)
  show ?thesis
    using assms d' one [of is_p1] one [of is_p2] all [of has_role] all [of player_named]
    by (simp add: registry_inv_def)
qed

lemma registry_inv_spectator:
  "registry_inv tbl \<Longrightarrow> registry_inv (AList.update k ''2'' tbl)"
  by (rule registry_inv_update) (simp_all add: has_role_simps is_player_simps player_named_def)

lemma registry_inv_delete: "registry_inv tbl \<Longrightarrow> registry_inv (AList.delete k tbl)"
  using set_delete_subset [of k tbl] length_filter_conj [of is_p1 "\<lambda>c. fst c \<noteq> k" tbl]
    length_filter_conj [of is_p2 "\<lambda>c. fst c \<noteq> k" tbl]
  by (auto simp add: registry_inv_def distinct_delete filter_delete list_all_iff)

lemma registry_inv_scannable: "registry_inv tbl \<Longrightarrow> list_all scannable tbl"
  by (auto simp add: registry_inv_def list_all_iff has_role_scannable)

lemma registry_inv_empty: "registry_inv []"
  by (simp add: registry_inv_def)

text \<open>Under the invariant, an id reported by the scan is empty exactly when no item
  holds the role, and otherwise it is the id of the one item that holds it.\<close>

lemma vacant_role:
  assumes "list_all player_named tbl" and "P = is_p1 \<or> P = is_p2" and "last_id P [] tbl = []"
  shows "filter P tbl = []"
proof -
  have "\<not> (\<exists>c\<in>set tbl. P c \<and> fst c = [])"
    using assms(1,2) by (auto simp add: list_all_iff player_named_def split: if_splits)
  then show ?thesis
    using last_id_cases [of P "[]" tbl] assms(3) by auto
qed

lemma seated_role:
  assumes "length (filter P tbl) \<le> 1" and "last_id P [] tbl = k" and "k \<noteq> []"
  shows "\<exists>v. (k, v) \<in> set tbl \<and> P (k, v) \<and> filter P tbl = [(k, v)]"
proof -
  obtain c where c: "c \<in> set tbl" "P c" "fst c = k"
    using last_id_cases [of P "[]" tbl] assms(2,3) by auto
  then have "filter P tbl = [c]" using assms(1) by (intro filter_le1)
  then show ?thesis using c by (cases c) auto
qed

lemma seated_others:
  assumes "filter P tbl = [(k, v)]"
  shows "filter (\<lambda>c. P c \<and> fst c \<noteq> k) tbl = []"
proof -
  have "filter (\<lambda>c. P c \<and> fst c \<noteq> k) tbl = filter (\<lambda>c. fst c \<noteq> k) (filter P tbl)"
    by (simp add: conj_commute)
  then show ?thesis using assms by simp
qed

lemma vacant_others: "filter P tbl = [] \<Longrightarrow> filter (\<lambda>c. P c \<and> Q c) tbl = []"
  by (auto simp add: filter_empty_conv)

lemma vacant_iff:
  assumes "registry_inv tbl" and "P = is_p1 \<or> P = is_p2"
  shows "last_id P [] tbl = [] \<longleftrightarrow> filter P tbl = []"
proof
  assume "last_id P [] tbl = []"
  with assms show "filter P tbl = []"
    by (intro vacant_role) (simp_all add: registry_inv_def)
next
  assume "filter P tbl = []"
  then show "last_id P [] tbl = []" by (simp add: last_id_filter)
qed

lemma route_preserves_inv:
  assumes "registry_inv tbl0" and "connectionId ev \<noteq> []"
    and "scan_conns tbl0 = Inr (av, p1_id, p2_id, p1_moves, p2_moves)"
  shows "registry_inv (store (finish post_ok conns tbl0
           (route to_int tbl0 ev p1_id p2_id (scanned_data av p1_id p2_id p1_moves p2_moves))))"
proof -
  let ?cid = "connectionId ev"
  let ?d = "scanned_data av p1_id p2_id p1_moves p2_moves"
  note sc = scan_conns_Inr [OF assms(3)]
  have named: "list_all player_named tbl0" and le1: "length (filter is_p1 tbl0) \<le> 1"
    and le2: "length (filter is_p2 tbl0) \<le> 1"
    using assms(1) by (simp_all add: registry_inv_def)
  have named_cid: "player_named (?cid, v)" for v
    using assms(2) by (simp add: player_named_def)
  have seat1: "registry_inv (update_item ?cid (''0;'' @ s) tbl0)"
    if h: "p1_id = [] \<or> p1_id = ?cid" for s
  proof -
    have "filter (\<lambda>c. is_p1 c \<and> fst c \<noteq> ?cid) tbl0 = []"
    proof (cases "p1_id = []")
      case True
      then have "filter is_p1 tbl0 = []"
        using vacant_role [OF named, of is_p1] sc(2) by simp
      then show ?thesis by (rule vacant_others)
    next
      case False
      then obtain v where "filter is_p1 tbl0 = [(?cid, v)]"
        using h seated_role [OF le1, of ?cid] sc(2) assms(2) by auto
      then show ?thesis by (rule seated_others)
    qed
    then show ?thesis
      unfolding update_item_def using assms(1)
      by (intro registry_inv_update) (simp_all add: has_role_simps is_player_simps named_cid)
  qed
  have seat2: "registry_inv (update_item ?cid (''1;'' @ s) tbl0)"
    if h: "p2_id = [] \<or> p2_id = ?cid" for s
  proof -
    have "filter (\<lambda>c. is_p2 c \<and> fst c \<noteq> ?cid) tbl0 = []"
    proof (cases "p2_id = []")
      case True
      then have "filter is_p2 tbl0 = []"
        using vacant_role [OF named, of is_p2] sc(3) by simp
      then show ?thesis by (rule vacant_others)
    next
      case False
      then obtain v where "filter is_p2 tbl0 = [(?cid, v)]"
        using h seated_role [OF le2, of ?cid] sc(3) assms(2) by auto
      then show ?thesis by (rule seated_others)
    qed
    then show ?thesis
      unfolding update_item_def using assms(1)
      by (intro registry_inv_update) (simp_all add: has_role_simps is_player_simps named_cid)
  qed
  have reset: "registry_inv (update_item p2_id ''2'' (update_item p1_id ''2'' tbl0))"
    unfolding update_item_def using assms(1) by (intro registry_inv_spectator)
  consider (join) "routeKey ev = ''joinGame''" | (play) "routeKey ev = ''makePlay''"
    | (other) "routeKey ev \<noteq> ''joinGame''" "routeKey ev \<noteq> ''makePlay''"
    by blast
  then show ?thesis
  proof cases
    case join
    have "route to_int tbl0 ev p1_id p2_id ?d = Continue (join_game tbl0 ?cid ?d)"
      using join by (simp add: route_def)
    then show ?thesis
      using seat1 [of "[]"] seat2 [of "[]"] assms(1)
      by (simp add: join_game_eq [OF sc(1)] store_finish)
  next
    case play
    have r: "route to_int tbl0 ev p1_id p2_id ?d =
               make_play to_int tbl0 ?cid (message ev) p1_id p2_id ?d"
      using play by (simp add: route_def)
    show ?thesis
    proof (cases "make_play to_int tbl0 ?cid (message ev) p1_id p2_id ?d")
      case (Return x)
      then show ?thesis using assms(1) by (simp add: r store_finish)
    next
      case (Raise x)
      then show ?thesis using assms(1) by (simp add: r store_finish)
    next
      case (Continue x)
      obtain t d' where x: "x = (t, d')" by (cases x)
      show ?thesis
        using make_play_cases [OF Continue [unfolded x]] seat1 seat2 reset
        by (auto simp add: r Continue x store_finish)
    qed
  next
    case other
    then have "store (finish post_ok conns tbl0 (route to_int tbl0 ev p1_id p2_id ?d)) = tbl0"
      by (auto simp add: route_def store_finish split: option.splits)
    then show ?thesis using assms(1) by simp
  qed
qed

lemma handler_preserves_inv:
  assumes "registry_inv tbl" and "connectionId ev \<noteq> []"
  shows "registry_inv (store (lambda_handler to_int post_ok tbl ev))"
proof (cases "routeKey ev = ''$connect''")
  case True
  then show ?thesis
    using assms(1) by (simp add: handler_connect put_item_def registry_inv_spectator)
next
  case False
  define tbl0 where
    "tbl0 = (if routeKey ev = ''$disconnect'' then delete_item (connectionId ev) tbl else tbl)"
  have inv0: "registry_inv tbl0"
    using assms(1) by (simp add: tbl0_def delete_item_def registry_inv_delete)
  obtain av p1_id p2_id p1_moves p2_moves
    where sc: "scan_conns tbl0 = Inr (av, p1_id, p2_id, p1_moves, p2_moves)"
    using scan_conns_eq [OF registry_inv_scannable [OF inv0]] by blast
  show ?thesis
    unfolding handler_routes [OF False tbl0_def sc]
    using inv0 assms(2) sc by (rule route_preserves_inv)
qed

lemma run_preserves_inv:
  "registry_inv tbl \<Longrightarrow> \<forall>ev\<in>set evs. connectionId ev \<noteq> [] \<Longrightarrow>
   registry_inv (run to_int post_ok tbl evs)"
  by (induction evs arbitrary: tbl) (simp_all add: handler_preserves_inv)

section \<open>The scan after an update\<close>

lemma last_moves_single:
  assumes "filter P tbl = [(k, v)]"
  shows "last_moves P m tbl =
           (if moves_text v \<noteq> [] then split_chr CHR '','' (moves_text v) else m)"
proof -
  have "(k, v) \<in> set (filter P tbl)" using assms by simp
  then have "P (k, v)" by simp
  then show ?thesis
    by (subst last_moves_filter) (simp add: assms)
qed

lemma last_moves_vacant: "filter P tbl = [] \<Longrightarrow> last_moves P m tbl = m"
  by (subst last_moves_filter) simp

lemma role_taken:
  assumes "distinct (map fst tbl)" and "P (k, v)"
    and "filter (\<lambda>c. P c \<and> fst c \<noteq> k) tbl = []"
  shows "last_id P a (AList.update k v tbl) = k"
    and "last_moves P m (AList.update k v tbl) =
           (if moves_text v \<noteq> [] then split_chr CHR '','' (moves_text v) else m)"
proof -
  have f: "filter P (AList.update k v tbl) = [(k, v)]"
    using assms by (simp add: filter_update_others)
  show "last_id P a (AList.update k v tbl) = k"
    by (simp add: last_id_filter f)
  show "last_moves P m (AList.update k v tbl) =
           (if moves_text v \<noteq> [] then split_chr CHR '','' (moves_text v) else m)"
    using f by (rule last_moves_single)
qed

lemma role_left:
  assumes "distinct (map fst tbl)" and "\<not> P (k, v)" and "length (filter P tbl) \<le> 1"
  shows "last_id P [] (AList.update k v tbl) =
           (if last_id P [] tbl = k then [] else last_id P [] tbl)"
    and "last_moves P [] (AList.update k v tbl) =
           (if filter P tbl \<noteq> [] \<and> last_id P [] tbl = k then [] else last_moves P [] tbl)"
proof -
  have f: "filter P (AList.update k v tbl) = filter (\<lambda>c. fst c \<noteq> k) (filter P tbl)"
    using assms(1,2) by (simp add: filter_update_not conj_commute)
  consider "filter P tbl = []" | c where "filter P tbl = [c]"
    using assms(3) by (cases "filter P tbl"; cases "tl (filter P tbl)") auto
  then have "last_id P [] (AList.update k v tbl) =
               (if last_id P [] tbl = k then [] else last_id P [] tbl)
           \<and> last_moves P [] (AList.update k v tbl) =
               (if filter P tbl \<noteq> [] \<and> last_id P [] tbl = k then []
                else last_moves P [] tbl)"
  proof cases
    case 1
    then show ?thesis
      using f by (simp add: last_id_filter last_moves_vacant)
  next
    case 2
    then show ?thesis
      using f last_moves_filter [of P "[]" tbl]
        last_moves_filter [of P "[]" "AList.update k v tbl"]
      by (simp add: last_id_filter)
  qed
  then show "last_id P [] (AList.update k v tbl) =
           (if last_id P [] tbl = k then [] else last_id P [] tbl)"
    and "last_moves P [] (AList.update k v tbl) =
           (if filter P tbl \<noteq> [] \<and> last_id P [] tbl = k then [] else last_moves P [] tbl)"
    by simp_all
qed

lemma moves_text_simps:
  "moves_text ''2'' = []" "moves_text ''0;'' = []" "moves_text ''1;'' = []"
  by (simp_all add: moves_text_def)

text \<open>Both roles are vacant once the items of the two reported player ids are set to
  \<^verbatim>\<open>"2"\<close>.\<close>

lemma scan_after_reset:
  assumes "registry_inv tbl"
    and "scan_conns tbl = Inr (av, p1_id, p2_id, p1_moves, p2_moves)"
  shows "scan_conns (update_item p2_id ''2'' (update_item p1_id ''2'' tbl)) =
           Inr ([0, 1, 2], [], [], [], [])"
proof -
  let ?t1 = "AList.update p1_id ''2'' tbl"
  let ?t2 = "AList.update p2_id ''2'' ?t1"
  note sc = scan_conns_Inr [OF assms(2)]
  have inv1: "registry_inv ?t1" using assms(1) by (rule registry_inv_spectator)
  have inv2: "registry_inv ?t2" using inv1 by (rule registry_inv_spectator)
  have d: "distinct (map fst tbl)" "length (filter is_p1 tbl) \<le> 1"
    "length (filter is_p2 tbl) \<le> 1"
    using assms(1) by (simp_all add: registry_inv_def)
  have d1: "distinct (map fst ?t1)" "length (filter is_p1 ?t1) \<le> 1"
    "length (filter is_p2 ?t1) \<le> 1"
    using inv1 by (simp_all add: registry_inv_def)
  have a1: "last_id is_p1 [] ?t1 = []"
    using role_left(1) [OF d(1) is_player_simps(1) d(2), of p1_id] sc(2) by simp
  have b1: "last_moves is_p1 [] ?t1 = []"
    using role_left(2) [OF d(1) is_player_simps(1) d(2), of p1_id] sc(2)
    by (auto simp add: last_moves_vacant)
  have a2: "last_id is_p1 [] ?t2 = []"
    using role_left(1) [OF d1(1) is_player_simps(1) d1(2), of p2_id] a1 by simp
  have b2: "last_moves is_p1 [] ?t2 = []"
    using role_left(2) [OF d1(1) is_player_simps(1) d1(2), of p2_id] b1 by simp
  have c1: "last_id is_p2 [] ?t1 = [] \<or> last_id is_p2 [] ?t1 = p2_id"
    using role_left(1) [OF d(1) is_player_simps(2) d(3), of p1_id] sc(3) by simp
  have c2: "last_id is_p2 [] ?t2 = []"
    using role_left(1) [OF d1(1) is_player_simps(2) d1(3), of p2_id] c1 by auto
  have e2: "last_moves is_p2 [] ?t2 = []"
  proof (cases "filter is_p2 ?t1 = []")
    case True
    then show ?thesis
      using role_left(2) [OF d1(1) is_player_simps(2) d1(3), of p2_id]
      by (simp add: last_moves_vacant)
  next
    case False
    then have "last_id is_p2 [] ?t1 \<noteq> []"
      using vacant_role [of ?t1 is_p2] inv1 by (auto simp add: registry_inv_def)
    then have "last_id is_p2 [] ?t1 = p2_id" using c1 by simp
    then show ?thesis
      using False role_left(2) [OF d1(1) is_player_simps(2) d1(3), of p2_id] by simp
  qed
  show ?thesis
    unfolding update_item_def
    by (simp add: scan_conns_eq [OF registry_inv_scannable [OF inv2]] a2 b2 c2 e2)
qed

lemma same_key_same_item:
  "distinct (map fst tbl) \<Longrightarrow> (k, v) \<in> set tbl \<Longrightarrow> (k, w) \<in> set tbl \<Longrightarrow> v = w"
  by (meson eq_key_imp_eq_value)

lemma others_of_role:
  assumes "registry_inv tbl" and "k \<noteq> []" and "P = is_p1 \<or> P = is_p2"
    and "last_id P [] tbl = [] \<or> last_id P [] tbl = k"
  shows "filter (\<lambda>c. P c \<and> fst c \<noteq> k) tbl = []"
proof (cases "last_id P [] tbl = []")
  case True
  have "list_all player_named tbl" using assms(1) by (simp add: registry_inv_def)
  then have "filter P tbl = []" using assms(3) True by (rule vacant_role)
  then show ?thesis by (rule vacant_others)
next
  case False
  have "length (filter P tbl) \<le> 1" using assms(1,3) by (auto simp add: registry_inv_def)
  then obtain v where "filter P tbl = [(k, v)]"
    using seated_role [of P tbl k] assms(2,4) False by auto
  then show ?thesis by (rule seated_others)
qed

lemma seated_nonvacant:
  "last_id P [] tbl = k \<Longrightarrow> k \<noteq> [] \<Longrightarrow> filter P tbl \<noteq> []"
  by (auto simp add: last_id_filter split: if_splits)

lemma not_both_roles:
  assumes "registry_inv tbl" and "k \<noteq> []" and "last_id is_p1 [] tbl = k"
  shows "last_id is_p2 [] tbl \<noteq> k"
proof
  assume h: "last_id is_p2 [] tbl = k"
  have d: "distinct (map fst tbl)" "length (filter is_p1 tbl) \<le> 1"
    "length (filter is_p2 tbl) \<le> 1"
    using assms(1) by (simp_all add: registry_inv_def)
  obtain v where v: "(k, v) \<in> set tbl" "is_p1 (k, v)"
    using seated_role [OF d(2) assms(3,2)] by blast
  obtain w where w: "(k, w) \<in> set tbl" "is_p2 (k, w)"
    using seated_role [OF d(3) h assms(2)] by blast
  have "v = w" using d(1) v(1) w(1) by (rule same_key_same_item)
  then show False using v(2) w(2) by (auto simp add: is_p1_def is_p2_def split: list.splits)
qed

text \<open>The scan after the caller's item is set to a player-one item, when the role was
  vacant or the caller's already: the caller is player one with the moves of the new
  item's text, and player two is as before unless the caller held that role.\<close>

lemma scan_after_seat1:
  assumes "registry_inv tbl" and "k \<noteq> []"
    and "scan_conns tbl = Inr (av, p1_id, p2_id, p1_moves, p2_moves)"
    and "p1_id = [] \<or> p1_id = k"
    and "v = CHR ''0'' # CHR '';'' # text"
  shows "registry_inv (update_item k v tbl)"
    and "scan_conns (update_item k v tbl) =
           Inr ((if p2_id = [] \<or> p2_id = k then [1] else []) @ [2],
                k, (if p2_id = k then [] else p2_id),
                (if moves_text v \<noteq> [] then split_chr CHR '','' (moves_text v) else []),
                (if p2_id = k then [] else p2_moves))"
proof -
  note sc = scan_conns_Inr [OF assms(3)]
  have d: "distinct (map fst tbl)" "length (filter is_p2 tbl) \<le> 1"
    using assms(1) by (simp_all add: registry_inv_def)
  have o: "filter (\<lambda>c. is_p1 c \<and> fst c \<noteq> k) tbl = []"
    using assms(1,2) _ assms(4) [unfolded sc(2)] by (rule others_of_role) simp
  have p: "is_p1 (k, v)" "\<not> is_p2 (k, v)" "has_role (k, v)" "player_named (k, v)"
    using assms(2) by (simp_all add: assms(5) is_player_simps has_role_simps player_named_def)
  show inv: "registry_inv (update_item k v tbl)"
    unfolding update_item_def using assms(1) p(3,4) o p(2)
    by (intro registry_inv_update) simp_all
  have nv: "filter is_p2 tbl \<noteq> []" if "p2_id = k"
    using that sc(3) assms(2) seated_nonvacant [of is_p2 tbl k] by simp
  show "scan_conns (update_item k v tbl) =
           Inr ((if p2_id = [] \<or> p2_id = k then [1] else []) @ [2],
                k, (if p2_id = k then [] else p2_id),
                (if moves_text v \<noteq> [] then split_chr CHR '','' (moves_text v) else []),
                (if p2_id = k then [] else p2_moves))"
    using scan_conns_eq [OF registry_inv_scannable [OF inv]] nv assms(2)
    unfolding update_item_def role_taken [OF d(1) p(1) o] role_left [OF d(1) p(2) d(2)]
      sc(3) [symmetric] sc(5) [symmetric]
    by auto
qed

lemma scan_after_seat2:
  assumes "registry_inv tbl" and "k \<noteq> []"
    and "scan_conns tbl = Inr (av, p1_id, p2_id, p1_moves, p2_moves)"
    and "p2_id = [] \<or> p2_id = k"
    and "v = CHR ''1'' # CHR '';'' # text"
  shows "registry_inv (update_item k v tbl)"
    and "scan_conns (update_item k v tbl) =
           Inr ((if p1_id = [] \<or> p1_id = k then [0] else []) @ [2],
                (if p1_id = k then [] else p1_id), k,
                (if p1_id = k then [] else p1_moves),
                (if moves_text v \<noteq> [] then split_chr CHR '','' (moves_text v) else []))"
proof -
  note sc = scan_conns_Inr [OF assms(3)]
  have d: "distinct (map fst tbl)" "length (filter is_p1 tbl) \<le> 1"
    using assms(1) by (simp_all add: registry_inv_def)
  have o: "filter (\<lambda>c. is_p2 c \<and> fst c \<noteq> k) tbl = []"
    using assms(1,2) _ assms(4) [unfolded sc(3)] by (rule others_of_role) simp
  have p: "is_p2 (k, v)" "\<not> is_p1 (k, v)" "has_role (k, v)" "player_named (k, v)"
    using assms(2) by (simp_all add: assms(5) is_player_simps has_role_simps player_named_def)
  show inv: "registry_inv (update_item k v tbl)"
    unfolding update_item_def using assms(1) p(3,4) _ o
    by (intro registry_inv_update) (simp_all add: p(2))
  have nv: "filter is_p1 tbl \<noteq> []" if "p1_id = k"
    using that sc(2) assms(2) seated_nonvacant [of is_p1 tbl k] by simp
  show "scan_conns (update_item k v tbl) =
           Inr ((if p1_id = [] \<or> p1_id = k then [0] else []) @ [2],
                (if p1_id = k then [] else p1_id), k,
                (if p1_id = k then [] else p1_moves),
                (if moves_text v \<noteq> [] then split_chr CHR '','' (moves_text v) else []))"
    using scan_conns_eq [OF registry_inv_scannable [OF inv]] nv assms(2)
    unfolding update_item_def role_taken [OF d(1) p(1) o] role_left [OF d(1) p(2) d(2)]
      sc(2) [symmetric] sc(4) [symmetric]
    by auto
qed

text \<open>After a move of player one that leaves the game undecided, the table is a
  registry again and scans to the same players, with the move appended.\<close>

lemma scan_after_move1:
  assumes "registry_inv tbl" and "k \<noteq> []"
    and "scan_conns tbl = Inr (av, k, p2_id, p1_moves, p2_moves)"
    and "x \<noteq> []" and "CHR '','' \<notin> set x" and "CHR '';'' \<notin> set x"
  shows "registry_inv (update_item k (''0;'' @ join '','' (p1_moves @ [x])) tbl)"
    and "scan_conns (update_item k (''0;'' @ join '','' (p1_moves @ [x])) tbl) =
           Inr (av, k, p2_id, p1_moves @ [x], p2_moves)"
proof -
  let ?v = "CHR ''0'' # CHR '';'' # join '','' (p1_moves @ [x])"
  note sc = scan_conns_Inr [OF assms(3)]
  have ne: "p2_id \<noteq> k"
    using not_both_roles [OF assms(1,2)] sc(2,3) by simp
  have free: "\<forall>y\<in>set (p1_moves @ [x]). CHR '','' \<notin> set y \<and> CHR '';'' \<notin> set y"
    using scanned_moves_pieces [OF assms(3)] assms(5,6) by simp
  have single: "p1_moves @ [x] \<noteq> [[]]"
    using assms(4) by (cases p1_moves) auto
  have rt: "moves_text ?v \<noteq> []" "split_chr CHR '','' (moves_text ?v) = p1_moves @ [x]"
    using moves_roundtrip [of "CHR ''0''" "p1_moves @ [x]"] free single by simp_all
  have avs: "av = (if p2_id = [] \<or> p2_id = k then [1] else []) @ [2]"
    using sc(1) assms(2) ne by simp
  show "registry_inv (update_item k (''0;'' @ join '','' (p1_moves @ [x])) tbl)"
    using scan_after_seat1(1) [OF assms(1,2,3), of ?v] by simp
  show "scan_conns (update_item k (''0;'' @ join '','' (p1_moves @ [x])) tbl) =
           Inr (av, k, p2_id, p1_moves @ [x], p2_moves)"
    using scan_after_seat1(2) [OF assms(1,2,3), of ?v] ne rt avs by simp
qed

lemma scan_after_move2:
  assumes "registry_inv tbl" and "k \<noteq> []"
    and "scan_conns tbl = Inr (av, p1_id, k, p1_moves, p2_moves)"
    and "x \<noteq> []" and "CHR '','' \<notin> set x" and "CHR '';'' \<notin> set x"
  shows "registry_inv (update_item k (''1;'' @ join '','' (p2_moves @ [x])) tbl)"
    and "scan_conns (update_item k (''1;'' @ join '','' (p2_moves @ [x])) tbl) =
           Inr (av, p1_id, k, p1_moves, p2_moves @ [x])"
proof -
  let ?v = "CHR ''1'' # CHR '';'' # join '','' (p2_moves @ [x])"
  note sc = scan_conns_Inr [OF assms(3)]
  have ne: "p1_id \<noteq> k"
    using not_both_roles [OF assms(1,2), of ] sc(2,3) by auto
  have free: "\<forall>y\<in>set (p2_moves @ [x]). CHR '','' \<notin> set y \<and> CHR '';'' \<notin> set y"
    using scanned_moves_pieces [OF assms(3)] assms(5,6) by simp
  have single: "p2_moves @ [x] \<noteq> [[]]"
    using assms(4) by (cases p2_moves) auto
  have rt: "moves_text ?v \<noteq> []" "split_chr CHR '','' (moves_text ?v) = p2_moves @ [x]"
    using moves_roundtrip [of "CHR ''1''" "p2_moves @ [x]"] free single by simp_all
  have avs: "av = (if p1_id = [] \<or> p1_id = k then [0] else []) @ [2]"
    using sc(1) assms(2) ne by simp
  show "registry_inv (update_item k (''1;'' @ join '','' (p2_moves @ [x])) tbl)"
    using scan_after_seat2(1) [OF assms(1,2,3), of ?v] by simp
  show "scan_conns (update_item k (''1;'' @ join '','' (p2_moves @ [x])) tbl) =
           Inr (av, p1_id, k, p1_moves, p2_moves @ [x])"
    using scan_after_seat2(2) [OF assms(1,2,3), of ?v] ne rt avs by simp
qed

section \<open>Consecutive moves of one player\<close>

lemma undecided_move1:
  assumes "scan_conns tbl = Inr (av, k, p2_id, p1_moves, p2_moves)" and "p2_id \<noteq> k"
    and "x \<notin> set p1_moves" and "x \<notin> set p2_moves"
    and "ints_of to_int (p1_moves @ x # xs) = Some ints"
    and "\<not> (\<exists>combo\<in>set WINNING_COMBOS. set combo \<subseteq> set ints)"
    and "length p1_moves + length p2_moves + 1 \<noteq> 9"
  shows "store (lambda_handler to_int post_ok tbl (play k x)) =
           update_item k (''0;'' @ join '','' (p1_moves @ [x])) tbl"
proof -
  obtain a where a: "ints_of to_int (p1_moves @ [x]) = Some a" "set a \<subseteq> set ints"
    using assms(5) ints_of_prefix [of to_int "p1_moves @ [x]" xs ints] by auto
  let ?d = "(scanned_data av k p2_id p1_moves p2_moves)\<lparr>p1Moves := p1_moves @ [x]\<rparr>"
  have "decide a ?d = ''''"
    using assms(6,7) a(2) by (intro decide_goes_on) (auto simp add: scanned_data_def)
  then have pd: "play_decision to_int k k p2_id x (scanned_data av k p2_id p1_moves p2_moves)
                   = Some ''''"
    using assms(2) a(1) by (simp add: play_decision_def apply_move_eq scanned_data_def)
  show ?thesis
    using handler_makePlay_decided [of "play k x" tbl av k p2_id p1_moves p2_moves x to_int
        "''''" post_ok] assms(1,2,3,4) pd
    by (simp add: play_simps store_finish)
qed

lemma undecided_move2:
  assumes "scan_conns tbl = Inr (av, p1_id, k, p1_moves, p2_moves)"
    and "x \<notin> set p1_moves" and "x \<notin> set p2_moves"
    and "ints_of to_int (p2_moves @ x # xs) = Some ints"
    and "\<not> (\<exists>combo\<in>set WINNING_COMBOS. set combo \<subseteq> set ints)"
    and "length p1_moves + length p2_moves + 1 \<noteq> 9" and "p1_id \<noteq> k"
  shows "store (lambda_handler to_int post_ok tbl (play k x)) =
           update_item k (''1;'' @ join '','' (p2_moves @ [x])) tbl"
proof -
  obtain a where a: "ints_of to_int (p2_moves @ [x]) = Some a" "set a \<subseteq> set ints"
    using assms(4) ints_of_prefix [of to_int "p2_moves @ [x]" xs ints] by auto
  let ?d = "(scanned_data av p1_id k p1_moves p2_moves)\<lparr>p2Moves := p2_moves @ [x]\<rparr>"
  have "decide a ?d = ''''"
    using assms(5,6) a(2) by (intro decide_goes_on) (auto simp add: scanned_data_def)
  then have pd: "play_decision to_int k p1_id k x (scanned_data av p1_id k p1_moves p2_moves)
                   = Some ''''"
    using assms(7) a(1) by (simp add: play_decision_def apply_move_eq scanned_data_def)
  show ?thesis
    using handler_makePlay_decided [of "play k x" tbl av p1_id k p1_moves p2_moves x to_int
        "''''" post_ok] assms(1,2,3) pd
    by (simp add: play_simps store_finish)
qed

lemma consecutive_moves1:
  assumes "registry_inv tbl" and "k \<noteq> []"
    and "scan_conns tbl = Inr (av, k, p2_id, p1_moves, p2_moves)"
    and "distinct msgs" and "set msgs \<inter> (set p1_moves \<union> set p2_moves) = {}"
    and "\<forall>x\<in>set msgs. x \<noteq> [] \<and> CHR '','' \<notin> set x \<and> CHR '';'' \<notin> set x"
    and "ints_of to_int (p1_moves @ msgs) = Some ints"
    and "\<not> (\<exists>combo\<in>set WINNING_COMBOS. set combo \<subseteq> set ints)"
    and "length p1_moves + length p2_moves + length msgs < 9
         \<or> 9 \<le> length p1_moves + length p2_moves"
  shows "scan_conns (run to_int post_ok tbl (map (play k) msgs)) =
           Inr (av, k, p2_id, p1_moves @ msgs, p2_moves)
       \<and> run to_int post_ok tbl (map (play k) msgs) =
           (if msgs = [] then tbl
            else update_item k (''0;'' @ join '','' (p1_moves @ msgs)) tbl)"
  using assms
proof (induction msgs arbitrary: tbl p1_moves)
  case Nil
  then show ?case by simp
next
  case (Cons x xs)
  let ?t = "update_item k (''0;'' @ join '','' (p1_moves @ [x])) tbl"
  have ne: "p2_id \<noteq> k"
    using not_both_roles [OF Cons.prems(1,2)] scan_conns_Inr(2,3) [OF Cons.prems(3)] by simp
  have step: "store (lambda_handler to_int post_ok tbl (play k x)) = ?t"
    using Cons.prems(3) ne _ _ Cons.prems(7,8)
  proof (rule undecided_move1)
    show "x \<notin> set p1_moves" "x \<notin> set p2_moves" using Cons.prems(5) by auto
    show "length p1_moves + length p2_moves + 1 \<noteq> 9" using Cons.prems(9) by auto
  qed
  have x: "x \<noteq> []" "CHR '','' \<notin> set x" "CHR '';'' \<notin> set x"
    using Cons.prems(6) by simp_all
  have inv': "registry_inv ?t" and scan': "scan_conns ?t = Inr (av, k, p2_id, p1_moves @ [x], p2_moves)"
    using scan_after_move1 [OF Cons.prems(1,2,3) x] by simp_all
  have ih: "scan_conns (run to_int post_ok ?t (map (play k) xs)) =
              Inr (av, k, p2_id, (p1_moves @ [x]) @ xs, p2_moves)
          \<and> run to_int post_ok ?t (map (play k) xs) =
              (if xs = [] then ?t
               else update_item k (''0;'' @ join '','' ((p1_moves @ [x]) @ xs)) ?t)"
    using inv' Cons.prems(2) scan'
  proof (rule Cons.IH)
    show "distinct xs" using Cons.prems(4) by simp
    show "set xs \<inter> (set (p1_moves @ [x]) \<union> set p2_moves) = {}"
      using Cons.prems(4,5) by auto
    show "\<forall>y\<in>set xs. y \<noteq> [] \<and> CHR '','' \<notin> set y \<and> CHR '';'' \<notin> set y"
      using Cons.prems(6) by simp
    show "ints_of to_int ((p1_moves @ [x]) @ xs) = Some ints" using Cons.prems(7) by simp
    show "\<not> (\<exists>combo\<in>set WINNING_COMBOS. set combo \<subseteq> set ints)" by (rule Cons.prems(8))
    show "length (p1_moves @ [x]) + length p2_moves + length xs < 9
          \<or> 9 \<le> length (p1_moves @ [x]) + length p2_moves"
      using Cons.prems(9) by auto
  qed
  have r: "run to_int post_ok tbl (map (play k) (x # xs)) =
           run to_int post_ok ?t (map (play k) xs)"
    by (simp add: step)
  show ?case
    unfolding r
  proof (intro conjI)
    show "scan_conns (run to_int post_ok ?t (map (play k) xs)) =
            Inr (av, k, p2_id, p1_moves @ x # xs, p2_moves)"
      using conjunct1 [OF ih] by simp
    show "run to_int post_ok ?t (map (play k) xs) =
            (if x # xs = [] then tbl
             else update_item k (''0;'' @ join '','' (p1_moves @ x # xs)) tbl)"
      using conjunct2 [OF ih] by (simp add: update_item_twice)
  qed
qed

lemma consecutive_moves2:
  assumes "registry_inv tbl" and "k \<noteq> []"
    and "scan_conns tbl = Inr (av, p1_id, k, p1_moves, p2_moves)"
    and "distinct msgs" and "set msgs \<inter> (set p1_moves \<union> set p2_moves) = {}"
    and "\<forall>x\<in>set msgs. x \<noteq> [] \<and> CHR '','' \<notin> set x \<and> CHR '';'' \<notin> set x"
    and "ints_of to_int (p2_moves @ msgs) = Some ints"
    and "\<not> (\<exists>combo\<in>set WINNING_COMBOS. set combo \<subseteq> set ints)"
    and "length p1_moves + length p2_moves + length msgs < 9
         \<or> 9 \<le> length p1_moves + length p2_moves"
  shows "scan_conns (run to_int post_ok tbl (map (play k) msgs)) =
           Inr (av, p1_id, k, p1_moves, p2_moves @ msgs)
       \<and> run to_int post_ok tbl (map (play k) msgs) =
           (if msgs = [] then tbl
            else update_item k (''1;'' @ join '','' (p2_moves @ msgs)) tbl)"
  using assms
proof (induction msgs arbitrary: tbl p2_moves)
  case Nil
  then show ?case by simp
next
  case (Cons x xs)
  let ?t = "update_item k (''1;'' @ join '','' (p2_moves @ [x])) tbl"
  have ne: "p1_id \<noteq> k"
    using not_both_roles [OF Cons.prems(1,2)] scan_conns_Inr(2,3) [OF Cons.prems(3)] by auto
  have step: "store (lambda_handler to_int post_ok tbl (play k x)) = ?t"
    using Cons.prems(3) _ _ Cons.prems(7,8) _ ne
  proof (rule undecided_move2)
    show "x \<notin> set p1_moves" "x \<notin> set p2_moves" using Cons.prems(5) by auto
    show "length p1_moves + length p2_moves + 1 \<noteq> 9" using Cons.prems(9) by auto
  qed
  have x: "x \<noteq> []" "CHR '','' \<notin> set x" "CHR '';'' \<notin> set x"
    using Cons.prems(6) by simp_all
  have inv': "registry_inv ?t" and scan': "scan_conns ?t = Inr (av, p1_id, k, p1_moves, p2_moves @ [x])"
    using scan_after_move2 [OF Cons.prems(1,2,3) x] by simp_all
  have ih: "scan_conns (run to_int post_ok ?t (map (play k) xs)) =
              Inr (av, p1_id, k, p1_moves, (p2_moves @ [x]) @ xs)
          \<and> run to_int post_ok ?t (map (play k) xs) =
              (if xs = [] then ?t
               else update_item k (''1;'' @ join '','' ((p2_moves @ [x]) @ xs)) ?t)"
    using inv' Cons.prems(2) scan'
  proof (rule Cons.IH)
    show "distinct xs" using Cons.prems(4) by simp
    show "set xs \<inter> (set p1_moves \<union> set (p2_moves @ [x])) = {}"
      using Cons.prems(4,5) by auto
    show "\<forall>y\<in>set xs. y \<noteq> [] \<and> CHR '','' \<notin> set y \<and> CHR '';'' \<notin> set y"
      using Cons.prems(6) by simp
    show "ints_of to_int ((p2_moves @ [x]) @ xs) = Some ints" using Cons.prems(7) by simp
    show "\<not> (\<exists>combo\<in>set WINNING_COMBOS. set combo \<subseteq> set ints)" by (rule Cons.prems(8))
    show "length p1_moves + length (p2_moves @ [x]) + length xs < 9
          \<or> 9 \<le> length p1_moves + length (p2_moves @ [x])"
      using Cons.prems(9) by auto
  qed
  have r: "run to_int post_ok tbl (map (play k) (x # xs)) =
           run to_int post_ok ?t (map (play k) xs)"
    by (simp add: step)
  show ?case
    unfolding r
  proof (intro conjI)
    show "scan_conns (run to_int post_ok ?t (map (play k) xs)) =
            Inr (av, p1_id, k, p1_moves, p2_moves @ x # xs)"
      using conjunct1 [OF ih] by simp
    show "run to_int post_ok ?t (map (play k) xs) =
            (if x # xs = [] then tbl
             else update_item k (''1;'' @ join '','' (p2_moves @ x # xs)) tbl)"
      using conjunct2 [OF ih] by (simp add: update_item_twice)
  qed
qed

section \<open>The concrete inputs, evaluated\<close>

lemma dec_int_digits:
  "dec_int ''0'' = Some 0" "dec_int ''1'' = Some 1" "dec_int ''2'' = Some 2"
  "dec_int ''3'' = Some 3" "dec_int ''4'' = Some 4" "dec_int ''5'' = Some 5"
  "dec_int ''6'' = Some 6" "dec_int ''7'' = Some 7" "dec_int ''8'' = Some 8"
  by (simp_all add: dec_int_def)

lemma scan_game_table:
  "scan_conns game_table = Inr ([2], ''A'', ''B'', [''0'', ''1''], [''3'', ''4''])"
  by (simp add: scan_conns_def game_table_def)

lemma scan_tie_table:
  "scan_conns tie_table =
     Inr ([2], ''A'', ''B'', [''0'', ''1'', ''5'', ''6''], [''2'', ''3'', ''4'', ''7''])"
  by (simp add: scan_conns_def tie_table_def)

lemma scan_lobby_table: "scan_conns lobby_table = Inr ([0, 1, 2], '''', '''', [], [])"
  by (simp add: scan_conns_def lobby_table_def)

lemma scan_half_table: "scan_conns half_table = Inr ([1, 2], ''A'', [], [''0'', ''1''], [])"
  by (simp add: scan_conns_def half_table_def)

lemma scan_seated_table: "scan_conns seated_table = Inr ([2], ''A'', ''B'', [], [])"
  by (simp add: scan_conns_def seated_table_def)

lemma registry_inv_game_table: "registry_inv game_table"
  by (simp add: registry_inv_def game_table_def is_p1_def is_p2_def has_role_def
      player_named_def)

lemma registry_inv_half_table: "registry_inv half_table"
  by (simp add: registry_inv_def half_table_def is_p1_def is_p2_def has_role_def
      player_named_def)

lemma registry_inv_seated_table: "registry_inv seated_table"
  by (simp add: registry_inv_def seated_table_def is_p1_def is_p2_def has_role_def
      player_named_def)

lemma chat_lobby:
  "lambda_handler to_int post_ok lobby_table (chat ''B'' ''hi'') =
     finish post_ok lobby_table lobby_table
       (Continue (lobby_table,
          (scanned_data [0, 1, 2] [] [] [] [])\<lparr>newMessage := Some (''B'', ''hi'')\<rparr>))"
  using handler_routes [of "chat ''B'' ''hi''" lobby_table lobby_table "[0, 1, 2]" "[]" "[]"
      "[]" "[]" to_int post_ok]
  by (simp add: scan_lobby_table chat_simps route_def)

lemma tie_play:
  "play_decision dec_int ''A'' ''A'' ''B'' ''8''
     (scanned_data [2] ''A'' ''B'' [''0'', ''1'', ''5'', ''6''] [''2'', ''3'', ''4'', ''7''])
   = Some ''tied''"
  by (simp add: play_decision_def apply_move_eq scanned_data_def dec_int_digits decide_def
      WINNING_COMBOS_def)

lemma tie_handler:
  "lambda_handler dec_int post_ok tie_table (play ''A'' ''8'') =
     finish post_ok tie_table tie_table
       (Continue (update_item ''B'' ''2'' (update_item ''A'' ''2'' tie_table),
                  fresh_data (announcement ''A'' ''tied'' ''B'')))"
  using handler_makePlay_decided [of "play ''A'' ''8''" tie_table "[2]" "''A''" "''B''"
      "[''0'', ''1'', ''5'', ''6'']" "[''2'', ''3'', ''4'', ''7'']" "''8''" dec_int "''tied''" post_ok]
  by (simp add: play_simps scan_tie_table tie_play)

lemma win_play:
  "play_decision dec_int ''A'' ''A'' ''B'' ''2''
     (scanned_data [2] ''A'' ''B'' [''0'', ''1''] [''3'', ''4'']) = Some ''won''"
  by (simp add: play_decision_def apply_move_eq scanned_data_def dec_int_digits decide_def
      WINNING_COMBOS_def)

lemma go_on_play:
  "play_decision dec_int ''A'' ''A'' ''B'' ''5''
     (scanned_data [2] ''A'' ''B'' [''0'', ''1''] [''3'', ''4'']) = Some ''''"
  by (simp add: play_decision_def apply_move_eq scanned_data_def dec_int_digits decide_def
      WINNING_COMBOS_def)

lemma win_handler:
  "lambda_handler dec_int post_ok game_table (play ''A'' ''2'') =
     finish post_ok game_table game_table
       (Continue (update_item ''B'' ''2'' (update_item ''A'' ''2'' game_table),
                  fresh_data (announcement ''A'' ''won'' ''B'')))"
  using handler_makePlay_decided [of "play ''A'' ''2''" game_table "[2]" "''A''" "''B''"
      "[''0'', ''1'']" "[''3'', ''4'']" "''2''" dec_int "''won''" post_ok]
  by (simp add: play_simps scan_game_table win_play)

lemma first_play:
  "play_decision dec_int ''A'' ''A'' ''B'' ''0'' (scanned_data [2] ''A'' ''B'' [] []) = Some ''''"
  by (simp add: play_decision_def apply_move_eq scanned_data_def dec_int_digits decide_def)

lemma session_ids: "\<forall>ev\<in>set session. connectionId ev \<noteq> []"
  by (simp add: session_def connect_def disconnect_def join_request_def)

lemma session_run_5:
  "run dec_int all_delivered [] (take 5 session) = [(''A'', ''0;''), (''B'', ''1;'')]"
  by code_simp

section \<open>Outcome of an accepted move\<close>

text \<open>
  C1. For a \<^verbatim>\<open>makePlay\<close> event that passes the eligibility and the duplicate check and
  whose acting player's moves are all accepted by \<^verbatim>\<open>int\<close>: \<open>arr\<close>, the list that is
  checked, is the acting player's move list with the new move appended, and \<open>ints\<close> are
  its integers. A decision other than \<^verbatim>\<open>""\<close> (the game goes on) is reached only when that
  list has at least 3 moves; the gate of line 146 counts the distinct integers of the list,
  which are as many as the moves when the moves are distinct cells. The decision is
  \<^verbatim>\<open>"won"\<close> whenever one of the 8 triples of \<^verbatim>\<open>_WINNING_COMBOS\<close> is a subset of the acting
  player's integers, whatever the number of moves on the board: the win check comes
  before the tie check. With no such triple the decision is \<^verbatim>\<open>"tied"\<close> exactly when the
  gate is passed and the two move lists hold 9 moves together, and \<^verbatim>\<open>""\<close> otherwise. On
  a proper board, where the two players hold distinct cells of 0..8 and the other player
  holds no winning triple, 9 moves always pass the gate, so that the decision is
  \<^verbatim>\<open>"tied"\<close> exactly when there is no win and the lists hold 9 moves. The snapshot of a
  decided game announces the acting connection as the one that has won or tied; the
  snapshot of a game that goes on is \<^verbatim>\<open>data\<close> with the move appended.
\<close>

theorem makePlay_outcome:
  assumes "routeKey ev = ''makePlay''"
    and "scan_conns tbl = Inr (av, p1_id, p2_id, p1_moves, p2_moves)"
    and "connectionId ev = p1_id \<or> connectionId ev = p2_id"
    and "message ev = Some msg" and "msg \<notin> set p1_moves" and "msg \<notin> set p2_moves"
    and "apply_move (connectionId ev) p1_id p2_id msg
           (scanned_data av p1_id p2_id p1_moves p2_moves) = (d', ms, arr)"
    and "ints_of to_int arr = Some ints"
  shows "length WINNING_COMBOS = 8
       \<and> arr = (if connectionId ev = p2_id then p2_moves else p1_moves) @ [msg]
       \<and> p1Moves d' = (if connectionId ev = p1_id then p1_moves @ [msg] else p1_moves)
       \<and> p2Moves d' = (if connectionId ev = p2_id then p2_moves @ [msg] else p2_moves)
       \<and> map to_int arr = map Some ints
       \<and> (decide ints d' \<noteq> '''' \<longrightarrow> 3 \<le> length arr)
       \<and> ((\<exists>combo\<in>set WINNING_COMBOS. set combo \<subseteq> set ints) \<longrightarrow> decide ints d' = ''won'')
       \<and> (\<not> (\<exists>combo\<in>set WINNING_COMBOS. set combo \<subseteq> set ints) \<longrightarrow>
            decide ints d' =
              (if 3 \<le> card (set ints) \<and> length (p1Moves d') + length (p2Moves d') = 9
               then ''tied'' else ''''))
       \<and> (distinct ints \<longrightarrow> (3 \<le> card (set ints) \<longleftrightarrow> 3 \<le> length arr))
       \<and> (if p1_id \<noteq> p2_id
             \<and> ints_of to_int (if connectionId ev = p2_id then p1_moves else p2_moves) = Some oints
             \<and> distinct (ints @ oints) \<and> set (ints @ oints) \<subseteq> {0..8}
             \<and> \<not> (\<exists>combo\<in>set WINNING_COMBOS. set combo \<subseteq> set oints)
          then decide ints d' = ''tied'' \<longleftrightarrow>
                 \<not> (\<exists>combo\<in>set WINNING_COMBOS. set combo \<subseteq> set ints)
                 \<and> length (p1Moves d') + length (p2Moves d') = 9
          else True)
       \<and> snapshot (lambda_handler to_int post_ok tbl ev) =
           Some (if decide ints d' = '''' then d'
                 else fresh_data (announcement (connectionId ev) (decide ints d')
                        (if p1_id = connectionId ev then p2_id else p1_id)))"
proof -
  have am: "apply_move (connectionId ev) p1_id p2_id msg
              (scanned_data av p1_id p2_id p1_moves p2_moves) = (d', ms, arr)"
    by (rule assms(7))
  have arr: "arr = (if connectionId ev = p2_id then p2_moves else p1_moves) @ [msg]"
    using am assms(3) by (auto simp add: apply_move_eq scanned_data_def split: if_splits)
  have m1: "p1Moves d' = (if connectionId ev = p1_id then p1_moves @ [msg] else p1_moves)"
    using am assms(3) by (auto simp add: apply_move_eq scanned_data_def split: if_splits)
  have m2: "p2Moves d' = (if connectionId ev = p2_id then p2_moves @ [msg] else p2_moves)"
    using am assms(3) by (auto simp add: apply_move_eq scanned_data_def split: if_splits)
  have len: "length ints = length arr"
    using assms(8) by (rule ints_of_length)
  have card_le: "card (set ints) \<le> length arr"
    using card_length [of ints] len by simp
  have gate: "decide ints d' \<noteq> '''' \<longrightarrow> 3 \<le> length arr"
    using decide_gate [of ints d'] card_le by auto
  have won: "(\<exists>combo\<in>set WINNING_COMBOS. set combo \<subseteq> set ints) \<longrightarrow> decide ints d' = ''won''"
    by (simp add: decide_won)
  have other: "\<not> (\<exists>combo\<in>set WINNING_COMBOS. set combo \<subseteq> set ints) \<longrightarrow>
            decide ints d' =
              (if 3 \<le> card (set ints) \<and> length (p1Moves d') + length (p2Moves d') = 9
               then ''tied'' else '''')"
    by (simp add: decide_def list_ex_iff)
  have dist: "distinct ints \<longrightarrow> (3 \<le> card (set ints) \<longleftrightarrow> 3 \<le> length arr)"
    using len by (simp add: distinct_card)
  have board: "decide ints d' = ''tied'' \<longleftrightarrow>
                 \<not> (\<exists>combo\<in>set WINNING_COMBOS. set combo \<subseteq> set ints)
                 \<and> length (p1Moves d') + length (p2Moves d') = 9"
    if ne: "p1_id \<noteq> p2_id"
      and o: "ints_of to_int (if connectionId ev = p2_id then p1_moves else p2_moves) = Some oints"
      and d: "distinct (ints @ oints)" and r: "set (ints @ oints) \<subseteq> {0..8}"
      and nw: "\<not> (\<exists>combo\<in>set WINNING_COMBOS. set combo \<subseteq> set oints)"
  proof -
    have "length oints = length (if connectionId ev = p2_id then p1_moves else p2_moves)"
      using o by (rule ints_of_length)
    then have total: "length (p1Moves d') + length (p2Moves d') = length ints + length oints"
      using ne assms(3) by (auto simp add: m1 m2 len arr)
    have "3 \<le> card (set ints)" if "length (p1Moves d') + length (p2Moves d') = 9"
      using d r _ nw by (rule full_board_passes_gate) (use that total in simp)
    then show ?thesis
      unfolding decide_tied by blast
  qed
  have snap: "snapshot (lambda_handler to_int post_ok tbl ev) =
           Some (if decide ints d' = '''' then d'
                 else fresh_data (announcement (connectionId ev) (decide ints d')
                        (if p1_id = connectionId ev then p2_id else p1_id)))"
    by (simp add: handler_makePlay_accepted [OF assms] finish_simps reset_game_eq)
  have eight: "length WINNING_COMBOS = 8" by (simp add: WINNING_COMBOS_def)
  show ?thesis
    using eight arr m1 m2 ints_of_map [OF assms(8)] gate won other dist board snap
    by presburger
qed

theorem makePlay_outcome_witness:
  "routeKey (play ''A'' ''8'') = ''makePlay''
   \<and> scan_conns tie_table =
       Inr ([2], ''A'', ''B'', [''0'', ''1'', ''5'', ''6''], [''2'', ''3'', ''4'', ''7''])
   \<and> ints_of dec_int [''0'', ''1'', ''5'', ''6'', ''8''] = Some [0, 1, 5, 6, 8]
   \<and> ints_of dec_int [''2'', ''3'', ''4'', ''7''] = Some [2, 3, 4, 7]
   \<and> decide [0, 1, 5, 6, 8]
        \<lparr>avail = [2], p1Id = ''A'', p2Id = ''B'', p1Moves = [''0'', ''1'', ''5'', ''6'', ''8''],
         p2Moves = [''2'', ''3'', ''4'', ''7''], newMessage = None\<rparr> = ''tied''
   \<and> snapshot (lambda_handler dec_int all_delivered tie_table (play ''A'' ''8''))
       = Some (fresh_data (announcement ''A'' ''tied'' ''B''))
   \<and> snapshot (lambda_handler dec_int all_delivered game_table (play ''A'' ''2''))
       = Some (fresh_data (announcement ''A'' ''won'' ''B''))"
  using makePlay_outcome [where ev = "play ''A'' ''8''" and tbl = tie_table and av = "[2]"
      and ?p1_id = "''A''" and ?p2_id = "''B''" and ?p1_moves = "[''0'', ''1'', ''5'', ''6'']"
      and ?p2_moves = "[''2'', ''3'', ''4'', ''7'']" and msg = "''8''"
      and d' = "\<lparr>avail = [2], p1Id = ''A'', p2Id = ''B'',
                 p1Moves = [''0'', ''1'', ''5'', ''6'', ''8''],
                 p2Moves = [''2'', ''3'', ''4'', ''7''], newMessage = None\<rparr>"
      and ms = "Some ''0;0,1,5,6,8''" and arr = "[''0'', ''1'', ''5'', ''6'', ''8'']"
      and to_int = dec_int and ints = "[0, 1, 5, 6, 8]" and oints = "[2, 3, 4, 7]"
      and post_ok = all_delivered]
    makePlay_outcome [where ev = "play ''A'' ''2''" and tbl = game_table and av = "[2]"
      and ?p1_id = "''A''" and ?p2_id = "''B''" and ?p1_moves = "[''0'', ''1'']"
      and ?p2_moves = "[''3'', ''4'']" and msg = "''2''"
      and d' = "\<lparr>avail = [2], p1Id = ''A'', p2Id = ''B'', p1Moves = [''0'', ''1'', ''2''],
                 p2Moves = [''3'', ''4''], newMessage = None\<rparr>"
      and ms = "Some ''0;0,1,2''" and arr = "[''0'', ''1'', ''2'']"
      and to_int = dec_int and ints = "[0, 1, 2]" and oints = "[3, 4]"
      and post_ok = all_delivered]
  by (simp add: scan_game_table scan_tie_table play_simps apply_move_eq scanned_data_def
      dec_int_digits WINNING_COMBOS_def)

section \<open>Joining\<close>

text \<open>
  C2. For a \<^verbatim>\<open>joinGame\<close> event on a table that scans to \<open>av\<close> and the player ids
  \<open>p1_id\<close>, \<open>p2_id\<close>: role 0 is in \<open>av\<close> exactly when the scan reports no player one,
  role 1 exactly when it reports no player two, and in a registry that is exactly when no
  item holds the role. When role 0 is available the caller's item is set to \<^verbatim>\<open>"0;"\<close>;
  when only role 1 is available it is set to \<^verbatim>\<open>"1;"\<close>; the item is in the table when the
  invocation ends, and a scan of a registry then reports the caller in that role with no
  moves. When neither role is available the table is left as it was.
\<close>

theorem joinGame_assigns:
  assumes "routeKey ev = ''joinGame''"
    and "scan_conns tbl = Inr (av, p1_id, p2_id, p1_moves, p2_moves)"
  shows "(0 \<in> set av \<longleftrightarrow> p1_id = []) \<and> (1 \<in> set av \<longleftrightarrow> p2_id = [])
       \<and> (if registry_inv tbl
          then (0 \<in> set av \<longleftrightarrow> filter is_p1 tbl = []) \<and> (1 \<in> set av \<longleftrightarrow> filter is_p2 tbl = [])
          else True)
       \<and> store (lambda_handler to_int post_ok tbl ev) =
           (if 0 \<in> set av then update_item (connectionId ev) ''0;'' tbl
            else if 1 \<in> set av then update_item (connectionId ev) ''1;'' tbl
            else tbl)
       \<and> (if 0 \<in> set av \<or> 1 \<in> set av
          then map_of (store (lambda_handler to_int post_ok tbl ev)) (connectionId ev) =
                 Some (if 0 \<in> set av then ''0;'' else ''1;'')
          else True)
       \<and> (if registry_inv tbl \<and> connectionId ev \<noteq> [] \<and> 0 \<in> set av
          then map_sum id (\<lambda>(av', p1', p2', m1', m2'). (p1', m1'))
                 (scan_conns (store (lambda_handler to_int post_ok tbl ev))) =
               Inr (connectionId ev, [])
          else True)
       \<and> (if registry_inv tbl \<and> connectionId ev \<noteq> [] \<and> 0 \<notin> set av \<and> 1 \<in> set av
          then map_sum id (\<lambda>(av', p1', p2', m1', m2'). (p2', m2'))
                 (scan_conns (store (lambda_handler to_int post_ok tbl ev))) =
               Inr (connectionId ev, [])
          else True)"
proof -
  note sc = scan_conns_Inr [OF assms(2)]
  have av: "0 \<in> set av \<longleftrightarrow> p1_id = []" "1 \<in> set av \<longleftrightarrow> p2_id = []"
    by (auto simp add: sc(1))
  have vac: "registry_inv tbl \<Longrightarrow>
               (p1_id = [] \<longleftrightarrow> filter is_p1 tbl = []) \<and> (p2_id = [] \<longleftrightarrow> filter is_p2 tbl = [])"
    using vacant_iff [of tbl is_p1] vacant_iff [of tbl is_p2] by (simp add: sc(2,3))
  have st: "store (lambda_handler to_int post_ok tbl ev) =
           (if p1_id = [] then update_item (connectionId ev) ''0;'' tbl
            else if p2_id = [] then update_item (connectionId ev) ''1;'' tbl
            else tbl)"
    by (simp add: handler_joinGame [OF assms] store_finish)
  have r1: "scan_conns (update_item (connectionId ev) ''0;'' tbl) =
             Inr ((if p2_id = [] \<or> p2_id = connectionId ev then [1] else []) @ [2],
                connectionId ev, (if p2_id = connectionId ev then [] else p2_id),
                [], (if p2_id = connectionId ev then [] else p2_moves))"
    if "registry_inv tbl" "connectionId ev \<noteq> []" "p1_id = []"
    using scan_after_seat1(2) [OF that(1,2) assms(2), of "''0;''" "[]"] that(3)
    by (simp add: moves_text_simps)
  have r2: "scan_conns (update_item (connectionId ev) ''1;'' tbl) =
             Inr ((if p1_id = [] \<or> p1_id = connectionId ev then [0] else []) @ [2],
                (if p1_id = connectionId ev then [] else p1_id), connectionId ev,
                (if p1_id = connectionId ev then [] else p1_moves), [])"
    if "registry_inv tbl" "connectionId ev \<noteq> []" "p2_id = []"
    using scan_after_seat2(2) [OF that(1,2) assms(2), of "''1;''" "[]"] that(3)
    by (simp add: moves_text_simps)
  have c3: "if registry_inv tbl
          then (0 \<in> set av \<longleftrightarrow> filter is_p1 tbl = []) \<and> (1 \<in> set av \<longleftrightarrow> filter is_p2 tbl = [])
          else True"
    unfolding av using vac by simp
  have c4: "store (lambda_handler to_int post_ok tbl ev) =
           (if 0 \<in> set av then update_item (connectionId ev) ''0;'' tbl
            else if 1 \<in> set av then update_item (connectionId ev) ''1;'' tbl
            else tbl)"
    unfolding av by (simp add: st)
  have c5: "if 0 \<in> set av \<or> 1 \<in> set av
          then map_of (store (lambda_handler to_int post_ok tbl ev)) (connectionId ev) =
                 Some (if 0 \<in> set av then ''0;'' else ''1;'')
          else True"
    unfolding av by (simp add: st map_of_update_item)
  have c6: "if registry_inv tbl \<and> connectionId ev \<noteq> [] \<and> 0 \<in> set av
          then map_sum id (\<lambda>(av', p1', p2', m1', m2'). (p1', m1'))
                 (scan_conns (store (lambda_handler to_int post_ok tbl ev))) =
               Inr (connectionId ev, [])
          else True"
    unfolding av using r1 by (simp add: st)
  have c7: "if registry_inv tbl \<and> connectionId ev \<noteq> [] \<and> 0 \<notin> set av \<and> 1 \<in> set av
          then map_sum id (\<lambda>(av', p1', p2', m1', m2'). (p2', m2'))
                 (scan_conns (store (lambda_handler to_int post_ok tbl ev))) =
               Inr (connectionId ev, [])
          else True"
    unfolding av using r2 by (simp add: st)
  show ?thesis
    using av c3 c4 c5 c6 c7 by blast
qed

theorem joinGame_assigns_witness:
  "routeKey (join_request ''C'') = ''joinGame''
   \<and> scan_conns half_table = Inr ([1, 2], ''A'', [], [''0'', ''1''], [])
   \<and> registry_inv half_table
   \<and> store (lambda_handler dec_int all_delivered half_table (join_request ''C''))
       = [(''A'', ''0;0,1''), (''C'', ''1;'')]
   \<and> scan_conns (store (lambda_handler dec_int all_delivered half_table (join_request ''C'')))
       = Inr ([2], ''A'', ''C'', [''0'', ''1''], [])
   \<and> store (lambda_handler dec_int all_delivered game_table (join_request ''C'')) = game_table"
  using joinGame_assigns [of "join_request ''C''" half_table "[1, 2]" "''A''" "[]"
      "[''0'', ''1'']" "[]" dec_int all_delivered]
    joinGame_assigns [of "join_request ''C''" game_table "[2]" "''A''" "''B''"
      "[''0'', ''1'']" "[''3'', ''4'']" dec_int all_delivered]
  by (simp add: join_request_simps scan_half_table scan_game_table registry_inv_half_table)
     (simp add: half_table_def update_item_def scan_conns_def)

section \<open>Rejected moves\<close>



section \<open>The reset after a decided game\<close>

text \<open>
  C4. For a \<^verbatim>\<open>makePlay\<close> event that passes both checks and whose decision is
  \<^verbatim>\<open>"won"\<close> or \<^verbatim>\<open>"tied"\<close>: the table is the old one with the items of both player ids
  set to \<^verbatim>\<open>"2"\<close>, the spectator's \<^verbatim>\<open>connType\<close>, which has no move text; the snapshot, and
  every payload that is sent, has \<^verbatim>\<open>avail = [0, 1, 2]\<close>, both ids empty and both move
  lists empty, and carries the announcement. When the table was a registry (one item per
  id, at most one item per player role), a scan of the new table finds both roles vacant
  and no moves.
\<close>

theorem makePlay_reset:
  assumes "routeKey ev = ''makePlay''"
    and "scan_conns tbl = Inr (av, p1_id, p2_id, p1_moves, p2_moves)"
    and "connectionId ev = p1_id \<or> connectionId ev = p2_id"
    and "message ev = Some msg" and "msg \<notin> set p1_moves" and "msg \<notin> set p2_moves"
    and "play_decision to_int (connectionId ev) p1_id p2_id msg
           (scanned_data av p1_id p2_id p1_moves p2_moves) = Some dec"
    and "dec \<noteq> ''''"
  shows "store (lambda_handler to_int post_ok tbl ev) =
           update_item p2_id ''2'' (update_item p1_id ''2'' tbl)
       \<and> map_of (store (lambda_handler to_int post_ok tbl ev)) p1_id = Some ''2''
       \<and> map_of (store (lambda_handler to_int post_ok tbl ev)) p2_id = Some ''2''
       \<and> snapshot (lambda_handler to_int post_ok tbl ev) =
           Some \<lparr>avail = [0, 1, 2], p1Id = [], p2Id = [], p1Moves = [], p2Moves = [],
                 newMessage = Some (announcement (connectionId ev) dec
                                (if p1_id = connectionId ev then p2_id else p1_id))\<rparr>
       \<and> list_all (\<lambda>x. Some (snd x) = snapshot (lambda_handler to_int post_ok tbl ev))
           (sent (lambda_handler to_int post_ok tbl ev))
       \<and> (if registry_inv tbl
          then scan_conns (store (lambda_handler to_int post_ok tbl ev)) =
                 Inr ([0, 1, 2], [], [], [], [])
          else True)"
proof -
  have h: "lambda_handler to_int post_ok tbl ev =
         finish post_ok tbl tbl
           (Continue (update_item p2_id ''2'' (update_item p1_id ''2'' tbl),
                   fresh_data (announcement (connectionId ev) dec
                     (if p1_id = connectionId ev then p2_id else p1_id))))"
    using assms(8) by (simp add: handler_makePlay_decided [OF assms(1-7)])
  have "registry_inv tbl \<Longrightarrow>
        scan_conns (update_item p2_id ''2'' (update_item p1_id ''2'' tbl)) =
          Inr ([0, 1, 2], [], [], [], [])"
    by (rule scan_after_reset [OF _ assms(2)])
  then show ?thesis
    unfolding h
    by (simp add: finish_simps fresh_data_def map_of_update_item broadcast_sent list_all_iff)
qed

theorem makePlay_reset_witness:
  "routeKey (play ''A'' ''2'') = ''makePlay''
   \<and> scan_conns game_table = Inr ([2], ''A'', ''B'', [''0'', ''1''], [''3'', ''4''])
   \<and> registry_inv game_table
   \<and> map_of (store (lambda_handler dec_int all_delivered game_table (play ''A'' ''2''))) ''A''
       = Some ''2''
   \<and> map_of (store (lambda_handler dec_int all_delivered game_table (play ''A'' ''2''))) ''B''
       = Some ''2''
   \<and> snapshot (lambda_handler dec_int all_delivered game_table (play ''A'' ''2'')) =
       Some \<lparr>avail = [0, 1, 2], p1Id = [], p2Id = [], p1Moves = [], p2Moves = [],
             newMessage = Some (''GAME'', ''A has won against B!'')\<rparr>
   \<and> scan_conns (store (lambda_handler dec_int all_delivered game_table (play ''A'' ''2''))) =
       Inr ([0, 1, 2], [], [], [], [])"
  using makePlay_reset [of "play ''A'' ''2''" game_table "[2]" "''A''" "''B''"
      "[''0'', ''1'']" "[''3'', ''4'']" "''2''" dec_int "''won''" all_delivered]
  by (simp add: play_simps scan_game_table win_play registry_inv_game_table announcement_def)
     (simp add: update_item_def game_table_def scan_conns_def)

section \<open>Roles along a run\<close>

text \<open>
  C5. Start from the empty table and handle any sequence of events whose connection ids
  are not empty (API Gateway never issues an empty id), whatever their route keys and
  messages, whatever \<^verbatim>\<open>int\<close> accepts and whichever deliveries fail. After every
  number \<open>n\<close> of these events the table has at most one item with the role of player one
  and at most one with the role of player two, and every connection holds exactly one
  role: there is one item per connection id, and its \<^verbatim>\<open>connType\<close> is either the
  spectator's \<^verbatim>\<open>"2"\<close> or starts with \<^verbatim>\<open>"0;"\<close> or starts with \<^verbatim>\<open>"1;"\<close>.
\<close>

theorem roles_unique_along_runs:
  assumes "\<forall>ev\<in>set evs. connectionId ev \<noteq> []"
  shows "length (filter is_p1 (run to_int post_ok [] (take n evs))) \<le> 1
       \<and> length (filter is_p2 (run to_int post_ok [] (take n evs))) \<le> 1
       \<and> distinct (map fst (run to_int post_ok [] (take n evs)))
       \<and> list_all has_role (run to_int post_ok [] (take n evs))"
proof -
  have "\<forall>ev\<in>set (take n evs). connectionId ev \<noteq> []"
    using assms by (auto dest: in_set_takeD)
  then have "registry_inv (run to_int post_ok [] (take n evs))"
    using registry_inv_empty by (intro run_preserves_inv)
  then show ?thesis by (simp add: registry_inv_def)
qed

theorem roles_unique_along_runs_witness:
  "run dec_int all_delivered [] (take 5 session) = [(''A'', ''0;''), (''B'', ''1;'')]
   \<and> length (filter is_p1 (run dec_int all_delivered [] (take 5 session))) \<le> 1
   \<and> length (filter is_p2 (run dec_int all_delivered [] (take 5 session))) \<le> 1
   \<and> distinct (map fst (run dec_int all_delivered [] (take 5 session)))
   \<and> list_all has_role (run dec_int all_delivered [] (take 5 session))"
  using roles_unique_along_runs [OF session_ids, of dec_int all_delivered 5] session_run_5
  by simp

section \<open>What an accepted move stores\<close>

text \<open>
  C6, as the claim states it, fails: line 192 writes the acting player's move list only
  when there is no decision. When A, with cells 0 and 1, plays cell 2, the move passes
  both checks and wins; the table then holds \<^verbatim>\<open>"2"\<close> for A, and the list 0, 1, 2 is
  stored nowhere.
\<close>

theorem winning_move_not_stored_counterexample:
  "outcome (lambda_handler dec_int all_delivered game_table (play ''A'' ''2''))
     = Inr success_response
   \<and> store (lambda_handler dec_int all_delivered game_table (play ''A'' ''2''))
     = [(''A'', ''2''), (''B'', ''2''), (''C'', ''2'')]"
  by (simp add: win_handler finish_simps broadcast_error)
     (simp add: game_table_def update_item_def all_delivered_def)

text \<open>
  C6, amended. For a \<^verbatim>\<open>makePlay\<close> event that passes both checks and reaches a decision
  (every move of the acting player is accepted by \<^verbatim>\<open>int\<close>): when the game goes on, the
  item of the acting connection is set to the role digit of the acting player, a
  semicolon and the acting player's moves with the new move appended, joined by commas,
  and the snapshot holds that extended list; when the decision is \<^verbatim>\<open>"won"\<close> or
  \<^verbatim>\<open>"tied"\<close>, the extended list is not stored: the items of both player ids, the acting
  connection's among them, are set to \<^verbatim>\<open>"2"\<close>.
\<close>

theorem makePlay_persists:
  assumes "routeKey ev = ''makePlay''"
    and "scan_conns tbl = Inr (av, p1_id, p2_id, p1_moves, p2_moves)"
    and "connectionId ev = p1_id \<or> connectionId ev = p2_id"
    and "message ev = Some msg" and "msg \<notin> set p1_moves" and "msg \<notin> set p2_moves"
    and "play_decision to_int (connectionId ev) p1_id p2_id msg
           (scanned_data av p1_id p2_id p1_moves p2_moves) = Some dec"
  shows "(dec = '''' \<longrightarrow>
            store (lambda_handler to_int post_ok tbl ev) =
              update_item (connectionId ev)
                ((if connectionId ev = p2_id then ''1;'' else ''0;'') @
                 join '','' ((if connectionId ev = p2_id then p2_moves else p1_moves) @ [msg]))
                tbl
          \<and> map_of (store (lambda_handler to_int post_ok tbl ev)) (connectionId ev) =
              Some ((if connectionId ev = p2_id then ''1;'' else ''0;'') @
                    join '','' ((if connectionId ev = p2_id then p2_moves else p1_moves) @ [msg]))
          \<and> map_option (\<lambda>d. if connectionId ev = p2_id then p2Moves d else p1Moves d)
              (snapshot (lambda_handler to_int post_ok tbl ev)) =
              Some ((if connectionId ev = p2_id then p2_moves else p1_moves) @ [msg]))
       \<and> (dec \<noteq> '''' \<longrightarrow>
            store (lambda_handler to_int post_ok tbl ev) =
              update_item p2_id ''2'' (update_item p1_id ''2'' tbl)
          \<and> map_of (store (lambda_handler to_int post_ok tbl ev)) (connectionId ev) = Some ''2'')"
  using assms(3)
  by (auto simp add: handler_makePlay_decided [OF assms] finish_simps map_of_update_item
      scanned_data_def)

theorem makePlay_persists_witness:
  "routeKey (play ''A'' ''5'') = ''makePlay''
   \<and> scan_conns game_table = Inr ([2], ''A'', ''B'', [''0'', ''1''], [''3'', ''4''])
   \<and> store (lambda_handler dec_int all_delivered game_table (play ''A'' ''5''))
       = [(''A'', ''0;0,1,5''), (''B'', ''1;3,4''), (''C'', ''2'')]
   \<and> store (lambda_handler dec_int all_delivered game_table (play ''A'' ''2''))
       = [(''A'', ''2''), (''B'', ''2''), (''C'', ''2'')]"
  using makePlay_persists [of "play ''A'' ''5''" game_table "[2]" "''A''" "''B''"
      "[''0'', ''1'']" "[''3'', ''4'']" "''5''" dec_int "''''" all_delivered]
    makePlay_persists [of "play ''A'' ''2''" game_table "[2]" "''A''" "''B''"
      "[''0'', ''1'']" "[''3'', ''4'']" "''2''" dec_int "''won''" all_delivered]
  by (simp add: play_simps scan_game_table win_play go_on_play)
     (simp add: game_table_def update_item_def)

section \<open>The announcement\<close>

text \<open>
  C7, as the claim states it, fails: lines 161-189 build the same announcement for both
  decisions. When A, with cells 0, 1, 5, 6, fills the last free cell 8 against B, the
  decision is \<^verbatim>\<open>"tied"\<close> and the snapshot carries an announcement that names A, the
  outcome kind and B, in the very form of a win's announcement.
\<close>

theorem tie_announcement_counterexample:
  "play_decision dec_int ''A'' ''A'' ''B'' ''8''
     (scanned_data [2] ''A'' ''B'' [''0'', ''1'', ''5'', ''6''] [''2'', ''3'', ''4'', ''7''])
     = Some ''tied''
   \<and> map_option newMessage
       (snapshot (lambda_handler dec_int all_delivered tie_table (play ''A'' ''8'')))
     = Some (Some (''GAME'', ''A has tied against B!''))"
  by (simp add: tie_play tie_handler finish_simps fresh_data_def announcement_def)

text \<open>
  C7, amended. For a \<^verbatim>\<open>makePlay\<close> event that passes both checks and reaches a decision
  (every move of the acting player is accepted by \<^verbatim>\<open>int\<close>), the decision is \<^verbatim>\<open>""\<close>,
  \<^verbatim>\<open>"won"\<close> or \<^verbatim>\<open>"tied"\<close>. When the game goes on the snapshot carries no announcement.
  When the decision is \<^verbatim>\<open>"won"\<close> or \<^verbatim>\<open>"tied"\<close> the snapshot carries the announcement of
  sender \<^verbatim>\<open>GAME\<close> with the text "X has D against Y!", where X is the acting connection
  id, D the decision and Y the other player id: a tie is announced in the same form as a
  win, naming the acting connection first.
\<close>

theorem makePlay_announcement:
  assumes "routeKey ev = ''makePlay''"
    and "scan_conns tbl = Inr (av, p1_id, p2_id, p1_moves, p2_moves)"
    and "connectionId ev = p1_id \<or> connectionId ev = p2_id"
    and "message ev = Some msg" and "msg \<notin> set p1_moves" and "msg \<notin> set p2_moves"
    and "play_decision to_int (connectionId ev) p1_id p2_id msg
           (scanned_data av p1_id p2_id p1_moves p2_moves) = Some dec"
  shows "(dec = '''' \<or> dec = ''won'' \<or> dec = ''tied'')
       \<and> map_option newMessage (snapshot (lambda_handler to_int post_ok tbl ev)) =
           Some (if dec = '''' then None
                 else Some (''GAME'',
                        connectionId ev @ '' has '' @ dec @ '' against '' @
                        (if p1_id = connectionId ev then p2_id else p1_id) @ ''!''))"
  using play_decision_cases [OF assms(7)]
  by (simp add: handler_makePlay_decided [OF assms] finish_simps fresh_data_def
      announcement_def scanned_data_def)

theorem makePlay_announcement_witness:
  "routeKey (play ''A'' ''8'') = ''makePlay''
   \<and> scan_conns tie_table =
       Inr ([2], ''A'', ''B'', [''0'', ''1'', ''5'', ''6''], [''2'', ''3'', ''4'', ''7''])
   \<and> map_option newMessage
       (snapshot (lambda_handler dec_int all_but_A tie_table (play ''A'' ''8'')))
     = Some (Some (''GAME'', ''A has tied against B!''))"
  using makePlay_announcement [of "play ''A'' ''8''" tie_table "[2]" "''A''" "''B''"
      "[''0'', ''1'', ''5'', ''6'']" "[''2'', ''3'', ''4'', ''7'']" "''8''" dec_int "''tied''"
      all_but_A]
  by (simp add: play_simps scan_tie_table tie_play)

section \<open>The broadcast\<close>

text \<open>
  C8, as the claim states it, fails: \<^verbatim>\<open>post_to_connection\<close> is called in a plain
  \<^verbatim>\<open>for\<close> loop with no exception handler. With the spectators A and B in the table and
  a transport that cannot reach A, a chat message of B is delivered to nobody: the
  failure at A ends the invocation before B, which the transport could reach, is served.
\<close>

theorem broadcast_aborted_counterexample:
  "all_but_A ''B'' \<and> (''B'', ''2'') \<in> set lobby_table
   \<and> sent (lambda_handler dec_int all_but_A lobby_table (chat ''B'' ''hi'')) = []
   \<and> outcome (lambda_handler dec_int all_but_A lobby_table (chat ''B'' ''hi''))
       = Inl (ClientError ''A'')"
  by (simp add: chat_lobby finish_simps) (simp add: lobby_table_def all_but_A_def)

text \<open>
  C8, amended. Whenever an invocation reaches the broadcast with the snapshot \<open>d\<close>, the
  snapshot is sent, in scan order, to the scanned connections that come before the first
  one whose delivery fails, and to no other; that failure ends the invocation with the
  transport's exception. When no delivery fails, every scanned connection is sent the
  snapshot and the handler returns its success response. The scanned connections are the
  table, without the caller when the route is \<^verbatim>\<open>$disconnect\<close>.
\<close>

theorem broadcast_stops_at_first_failure:
  assumes "snapshot (lambda_handler to_int post_ok tbl ev) = Some d"
    and "conns = (if routeKey ev = ''$disconnect'' then delete_item (connectionId ev) tbl
                  else tbl)"
  shows "sent (lambda_handler to_int post_ok tbl ev) =
           map (\<lambda>c. (fst c, d)) (takeWhile (\<lambda>c. post_ok (fst c)) conns)
       \<and> outcome (lambda_handler to_int post_ok tbl ev) =
           (case dropWhile (\<lambda>c. post_ok (fst c)) conns of
              [] \<Rightarrow> Inr success_response
            | c # _ \<Rightarrow> Inl (ClientError (fst c)))"
proof -
  have nc: "routeKey ev \<noteq> ''$connect''"
    using assms(1) by (auto simp add: handler_connect)
  obtain av p1_id p2_id p1_moves p2_moves
    where sc: "scan_conns conns = Inr (av, p1_id, p2_id, p1_moves, p2_moves)"
    using assms(1) handler_scan_error [OF nc assms(2), of _ to_int post_ok]
    by (cases "scan_conns conns") auto
  obtain routed where h: "lambda_handler to_int post_ok tbl ev = finish post_ok conns conns routed"
    using handler_routes [OF nc assms(2) sc] by blast
  have "sent (finish post_ok conns conns routed) = fst (broadcast post_ok d conns)
   \<and> outcome (finish post_ok conns conns routed) =
       (case snd (broadcast post_ok d conns) of
          None \<Rightarrow> Inr success_response
        | Some e \<Rightarrow> Inl e)"
    using assms(1) unfolding h by (rule finish_snapshot)
  then show ?thesis
    unfolding h broadcast_sent broadcast_error
    by (cases "dropWhile (\<lambda>c. post_ok (fst c)) conns")
       (simp_all del: dropWhile_eq_Nil_conv)
qed

theorem broadcast_stops_at_first_failure_witness:
  "snapshot (lambda_handler dec_int all_but_A lobby_table (chat ''B'' ''hi''))
     = Some ((scanned_data [0, 1, 2] [] [] [] [])\<lparr>newMessage := Some (''B'', ''hi'')\<rparr>)
   \<and> sent (lambda_handler dec_int all_but_A lobby_table (chat ''B'' ''hi'')) = []
   \<and> outcome (lambda_handler dec_int all_but_A lobby_table (chat ''B'' ''hi''))
       = Inl (ClientError ''A'')"
  using broadcast_stops_at_first_failure [of dec_int all_but_A lobby_table "chat ''B'' ''hi''"
      "(scanned_data [0, 1, 2] [] [] [] [])\<lparr>newMessage := Some (''B'', ''hi'')\<rparr>" lobby_table]
  by (simp add: chat_lobby finish_simps chat_simps) (simp add: lobby_table_def all_but_A_def)

section \<open>No turn order\<close>

text \<open>
  C9. For a \<^verbatim>\<open>makePlay\<close> event whose connection is one of the two scanned player ids,
  whose position is in neither move list and whose acting player's moves are accepted by
  \<^verbatim>\<open>int\<close>: the event is not rejected (the outcome is the success response, or the
  exception of a failed delivery), and the move is applied: the acting player's extended
  list is stored when the game goes on, and the game is reset when the move decides it.
  Nothing in the table records who moved last, and nothing is asked about it. So in a
  registry the same connection can go on: for every list \<open>further\<close> of later positions
  (distinct, free, not empty, without separators and accepted by \<^verbatim>\<open>int\<close>), as long as
  the acting player's cells hold no winning triple and the number of moves on the board
  does not pass through 9, the run of all these moves by the one connection, with no move
  of the other player in between, stores them all, in order, for that connection.
\<close>

theorem no_turn_order:
  assumes "routeKey ev = ''makePlay''"
    and "scan_conns tbl = Inr (av, p1_id, p2_id, p1_moves, p2_moves)"
    and "connectionId ev = p1_id \<or> connectionId ev = p2_id"
    and "message ev = Some msg" and "msg \<notin> set p1_moves" and "msg \<notin> set p2_moves"
    and "play_decision to_int (connectionId ev) p1_id p2_id msg
           (scanned_data av p1_id p2_id p1_moves p2_moves) = Some dec"
  shows "outcome (lambda_handler to_int post_ok tbl ev) =
           (case dropWhile (\<lambda>c. post_ok (fst c)) tbl of
              [] \<Rightarrow> Inr success_response
            | c # _ \<Rightarrow> Inl (ClientError (fst c)))
       \<and> snapshot (lambda_handler to_int post_ok tbl ev) \<noteq> None
       \<and> store (lambda_handler to_int post_ok tbl ev) =
           (if dec = '''' then
              update_item (connectionId ev)
                ((if connectionId ev = p2_id then ''1;'' else ''0;'') @
                 join '','' ((if connectionId ev = p2_id then p2_moves else p1_moves) @ [msg]))
                tbl
            else update_item p2_id ''2'' (update_item p1_id ''2'' tbl))
       \<and> (if registry_inv tbl \<and> connectionId ev \<noteq> []
             \<and> distinct (msg # further) \<and> set further \<inter> (set p1_moves \<union> set p2_moves) = {}
             \<and> (\<forall>x\<in>set (msg # further). x \<noteq> [] \<and> CHR '','' \<notin> set x \<and> CHR '';'' \<notin> set x)
             \<and> ints_of to_int
                 ((if connectionId ev = p2_id then p2_moves else p1_moves) @ msg # further)
                 = Some ints
             \<and> \<not> (\<exists>combo\<in>set WINNING_COMBOS. set combo \<subseteq> set ints)
             \<and> (length p1_moves + length p2_moves + length (msg # further) < 9
                  \<or> 9 \<le> length p1_moves + length p2_moves)
          then run to_int post_ok tbl (map (play (connectionId ev)) (msg # further)) =
                 update_item (connectionId ev)
                   ((if connectionId ev = p2_id then ''1;'' else ''0;'') @
                    join '','' ((if connectionId ev = p2_id then p2_moves else p1_moves)
                                @ msg # further))
                   tbl
             \<and> scan_conns (run to_int post_ok tbl (map (play (connectionId ev)) (msg # further))) =
                 Inr (av, p1_id, p2_id,
                      (if connectionId ev = p2_id then p1_moves else p1_moves @ msg # further),
                      (if connectionId ev = p2_id then p2_moves @ msg # further else p2_moves))
          else True)"
proof -
  let ?cid = "connectionId ev"
  let ?r = "lambda_handler to_int post_ok tbl ev"
  note h = handler_makePlay_decided [OF assms, of post_ok]
  have a: "outcome ?r =
           (case dropWhile (\<lambda>c. post_ok (fst c)) tbl of
              [] \<Rightarrow> Inr success_response
            | c # _ \<Rightarrow> Inl (ClientError (fst c)))"
    unfolding h by (simp add: finish_outcome)
  have b: "snapshot ?r \<noteq> None"
    unfolding h by (simp add: finish_simps)
  have c: "store ?r =
           (if dec = '''' then
              update_item ?cid
                ((if ?cid = p2_id then ''1;'' else ''0;'') @
                 join '','' ((if ?cid = p2_id then p2_moves else p1_moves) @ [msg]))
                tbl
            else update_item p2_id ''2'' (update_item p1_id ''2'' tbl))"
    unfolding h by (simp add: store_finish)
  have d: "run to_int post_ok tbl (map (play ?cid) (msg # further)) =
                 update_item ?cid
                   ((if ?cid = p2_id then ''1;'' else ''0;'') @
                    join '','' ((if ?cid = p2_id then p2_moves else p1_moves) @ msg # further))
                   tbl
             \<and> scan_conns (run to_int post_ok tbl (map (play ?cid) (msg # further))) =
                 Inr (av, p1_id, p2_id,
                      (if ?cid = p2_id then p1_moves else p1_moves @ msg # further),
                      (if ?cid = p2_id then p2_moves @ msg # further else p2_moves))"
    if inv: "registry_inv tbl" and ne: "?cid \<noteq> []"
      and dist: "distinct (msg # further)"
      and free: "set further \<inter> (set p1_moves \<union> set p2_moves) = {}"
      and ok: "\<forall>x\<in>set (msg # further). x \<noteq> [] \<and> CHR '','' \<notin> set x \<and> CHR '';'' \<notin> set x"
      and ints: "ints_of to_int ((if ?cid = p2_id then p2_moves else p1_moves) @ msg # further)
                   = Some ints"
      and nowin: "\<not> (\<exists>combo\<in>set WINNING_COMBOS. set combo \<subseteq> set ints)"
      and total: "length p1_moves + length p2_moves + length (msg # further) < 9
                  \<or> 9 \<le> length p1_moves + length p2_moves"
  proof (cases "?cid = p2_id")
    case True
    have fr: "set (msg # further) \<inter> (set p1_moves \<union> set p2_moves) = {}"
      using free assms(5,6) by auto
    note cm = consecutive_moves2 [OF inv ne assms(2) [folded True] dist fr ok
          ints [unfolded if_P [OF True]] nowin total, of post_ok]
    show ?thesis
    proof (intro conjI)
      show "run to_int post_ok tbl (map (play ?cid) (msg # further)) =
                 update_item ?cid
                   ((if ?cid = p2_id then ''1;'' else ''0;'') @
                    join '','' ((if ?cid = p2_id then p2_moves else p1_moves) @ msg # further))
                   tbl"
        using conjunct2 [OF cm] True by (simp del: run.simps list.map)
      show "scan_conns (run to_int post_ok tbl (map (play ?cid) (msg # further))) =
                 Inr (av, p1_id, p2_id,
                      (if ?cid = p2_id then p1_moves else p1_moves @ msg # further),
                      (if ?cid = p2_id then p2_moves @ msg # further else p2_moves))"
        using conjunct1 [OF cm] True by (simp del: run.simps list.map)
    qed
  next
    case False
    then have p1: "p1_id = ?cid" using assms(3) by simp
    have fr: "set (msg # further) \<inter> (set p1_moves \<union> set p2_moves) = {}"
      using free assms(5,6) by auto
    note cm = consecutive_moves1 [OF inv ne assms(2) [unfolded p1] dist fr ok
          ints [unfolded if_not_P [OF False]] nowin total, of post_ok]
    show ?thesis
    proof (intro conjI)
      show "run to_int post_ok tbl (map (play ?cid) (msg # further)) =
                 update_item ?cid
                   ((if ?cid = p2_id then ''1;'' else ''0;'') @
                    join '','' ((if ?cid = p2_id then p2_moves else p1_moves) @ msg # further))
                   tbl"
        using conjunct2 [OF cm] False by (simp del: run.simps list.map)
      show "scan_conns (run to_int post_ok tbl (map (play ?cid) (msg # further))) =
                 Inr (av, p1_id, p2_id,
                      (if ?cid = p2_id then p1_moves else p1_moves @ msg # further),
                      (if ?cid = p2_id then p2_moves @ msg # further else p2_moves))"
        using conjunct1 [OF cm] False p1 by (simp del: run.simps list.map)
    qed
  qed
  show ?thesis
    unfolding a c using b d by (auto simp del: run.simps list.map)
qed

theorem no_turn_order_witness:
  "routeKey (play ''A'' ''0'') = ''makePlay''
   \<and> scan_conns seated_table = Inr ([2], ''A'', ''B'', [], [])
   \<and> registry_inv seated_table
   \<and> ints_of dec_int [''0'', ''3'', ''7''] = Some [0, 3, 7]
   \<and> outcome (lambda_handler dec_int all_delivered seated_table (play ''A'' ''0''))
       = Inr success_response
   \<and> store (lambda_handler dec_int all_delivered seated_table (play ''A'' ''0''))
       = [(''A'', ''0;0''), (''B'', ''1;'')]
   \<and> run dec_int all_delivered seated_table (map (play ''A'') [''0'', ''3'', ''7''])
       = [(''A'', ''0;0,3,7''), (''B'', ''1;'')]"
  using no_turn_order [where ev = "play ''A'' ''0''" and tbl = seated_table and av = "[2]"
      and ?p1_id = "''A''" and ?p2_id = "''B''" and ?p1_moves = "[]" and ?p2_moves = "[]"
      and msg = "''0''" and to_int = dec_int and dec = "''''" and further = "[''3'', ''7'']"
      and ints = "[0, 3, 7]" and post_ok = all_delivered]
  by (simp add: play_simps scan_seated_table registry_inv_seated_table first_play
        dec_int_digits WINNING_COMBOS_def del: run.simps list.map)
     (simp add: seated_table_def update_item_def all_delivered_def del: run.simps list.map)

section \<open>Joining again from a seat\<close>

text \<open>
  C10. In a registry, let the caller of \<^verbatim>\<open>joinGame\<close> be the player one that the scan
  reports while it reports no player two. Then the caller's item is set to \<^verbatim>\<open>"1;"\<close>:
  a scan of the new table reports no player one and no moves of player one, and the
  caller as player two with no moves; no item holds the role of player one any more.
  Symmetrically, a caller who is the reported player two while no player one is reported
  gets the item \<^verbatim>\<open>"0;"\<close> and leaves the role of player two vacant. (The snapshot that
  this invocation broadcasts was built before the update: it shows the caller under both
  player ids, with the old move lists.)
\<close>

theorem rejoin_switches_role:
  assumes "routeKey ev = ''joinGame''" and "registry_inv tbl" and "connectionId ev \<noteq> []"
    and "scan_conns tbl = Inr (av, p1_id, p2_id, p1_moves, p2_moves)"
    and "(p1_id = connectionId ev \<and> p2_id = []) \<or> (p2_id = connectionId ev \<and> p1_id = [])"
  shows "store (lambda_handler to_int post_ok tbl ev) =
           update_item (connectionId ev) (if p1_id = connectionId ev then ''1;'' else ''0;'') tbl
       \<and> map_of (store (lambda_handler to_int post_ok tbl ev)) (connectionId ev) =
           Some (if p1_id = connectionId ev then ''1;'' else ''0;'')
       \<and> scan_conns (store (lambda_handler to_int post_ok tbl ev)) =
           Inr (if p1_id = connectionId ev then ([0, 2], [], connectionId ev, [], [])
                else ([1, 2], connectionId ev, [], [], []))
       \<and> filter (if p1_id = connectionId ev then is_p1 else is_p2)
           (store (lambda_handler to_int post_ok tbl ev)) = []
       \<and> snapshot (lambda_handler to_int post_ok tbl ev) =
           Some \<lparr>avail = [2], p1Id = connectionId ev, p2Id = connectionId ev,
                 p1Moves = p1_moves, p2Moves = p2_moves, newMessage = None\<rparr>"
proof -
  let ?cid = "connectionId ev"
  let ?r = "lambda_handler to_int post_ok tbl ev"
  note sc = scan_conns_Inr [OF assms(4)]
  consider (one) "p1_id = ?cid" "p2_id = []" | (two) "p2_id = ?cid" "p1_id = []"
    using assms(5) by blast
  then show ?thesis
  proof cases
    case one
    have st: "store ?r = update_item ?cid ''1;'' tbl"
      using one assms(3) by (simp add: handler_joinGame [OF assms(1,4)] store_finish)
    have snap: "snapshot ?r =
           Some \<lparr>avail = [2], p1Id = ?cid, p2Id = ?cid,
                 p1Moves = p1_moves, p2Moves = p2_moves, newMessage = None\<rparr>"
      using one assms(3)
      by (simp add: handler_joinGame [OF assms(1,4)] finish_simps scanned_data_def sc(1))
    have inv': "registry_inv (update_item ?cid ''1;'' tbl)"
      using scan_after_seat2(1) [OF assms(2,3,4), of "''1;''" "[]"] one by simp
    have rs: "scan_conns (update_item ?cid ''1;'' tbl) = Inr ([0, 2], [], ?cid, [], [])"
      using scan_after_seat2(2) [OF assms(2,3,4), of "''1;''" "[]"] one
      by (simp add: moves_text_simps)
    have "last_id is_p1 [] (update_item ?cid ''1;'' tbl) = []"
      using scan_conns_Inr(2) [OF rs] by simp
    then have vac: "filter is_p1 (update_item ?cid ''1;'' tbl) = []"
      using vacant_iff [OF inv', of is_p1] by simp
    show ?thesis
      using one by (simp add: st snap rs vac map_of_update_item)
  next
    case two
    have ne: "p1_id \<noteq> ?cid" using two assms(3) by simp
    have st: "store ?r = update_item ?cid ''0;'' tbl"
      using two by (simp add: handler_joinGame [OF assms(1,4)] store_finish)
    have snap: "snapshot ?r =
           Some \<lparr>avail = [2], p1Id = ?cid, p2Id = ?cid,
                 p1Moves = p1_moves, p2Moves = p2_moves, newMessage = None\<rparr>"
      using two assms(3)
      by (simp add: handler_joinGame [OF assms(1,4)] finish_simps scanned_data_def sc(1))
    have inv': "registry_inv (update_item ?cid ''0;'' tbl)"
      using scan_after_seat1(1) [OF assms(2,3,4), of "''0;''" "[]"] two by simp
    have rs: "scan_conns (update_item ?cid ''0;'' tbl) = Inr ([1, 2], ?cid, [], [], [])"
      using scan_after_seat1(2) [OF assms(2,3,4), of "''0;''" "[]"] two
      by (simp add: moves_text_simps)
    have "last_id is_p2 [] (update_item ?cid ''0;'' tbl) = []"
      using scan_conns_Inr(3) [OF rs] by simp
    then have vac: "filter is_p2 (update_item ?cid ''0;'' tbl) = []"
      using vacant_iff [OF inv', of is_p2] by simp
    show ?thesis
      using ne by (simp add: st snap rs vac map_of_update_item)
  qed
qed

theorem rejoin_switches_role_witness:
  "routeKey (join_request ''A'') = ''joinGame''
   \<and> registry_inv half_table
   \<and> scan_conns half_table = Inr ([1, 2], ''A'', [], [''0'', ''1''], [])
   \<and> store (lambda_handler dec_int all_delivered half_table (join_request ''A''))
       = [(''A'', ''1;''), (''C'', ''2'')]
   \<and> scan_conns (store (lambda_handler dec_int all_delivered half_table (join_request ''A'')))
       = Inr ([0, 2], [], ''A'', [], [])"
  using rejoin_switches_role [of "join_request ''A''" half_table "[1, 2]" "''A''" "[]"
      "[''0'', ''1'']" "[]" dec_int all_delivered]
  by (simp add: join_request_simps scan_half_table registry_inv_half_table)
     (simp add: half_table_def update_item_def scan_conns_def)

end
